theory Spec2Isabelle
  imports Main "HOL-Library.Word"
begin

section \<open>Outcomes shared by both components\<close>

text \<open>
  A kernel function either returns or stops the kernel. \<open>Panic m\<close> is a call of
  \<open>panic(m)\<close>. \<open>NullDeref\<close> is a load or store through a null pointer and
  \<open>WildPointer\<close> one through a pointer outside \<open>bcache.buf\<close>; both are undefined
  in C and a kernel page fault on the machine. \<open>Blocked\<close> is \<open>acquiresleep\<close> on a
  sleep-lock that is held: the caller is suspended, and in a sequential run nobody
  releases the lock. \<open>Hang\<close> is a \<open>while\<close> loop that walks a cyclic chain for ever.
\<close>

datatype failure = Panic string | NullDeref | WildPointer | Blocked | Hang

section \<open>kalloc.c: the per-CPU physical page allocator\<close>

type_synonym uint64 = "64 word"

definition PGSIZE :: uint64 where
  "PGSIZE = 4096"

text \<open>
  \<open>struct Keme\<close>: the free list of one CPU, as the address of its first frame
  (\<open>0\<close> is the null pointer). The spin-lock of the structure is taken and released
  around every access below and has no effect in a sequential run.
\<close>

record Keme =
  freelist :: uint64

text \<open>
  \<open>kmems[NCPU]\<close> and the part of physical memory the allocator reads: \<open>run_next a\<close>
  is the \<open>next\<close> field of the \<open>struct run\<close> at address \<open>a\<close>, the first word of the
  frame. \<open>NCPU\<close> (param.h) is the length of \<open>kmems\<close>.
\<close>

record kmem =
  kmems :: "Keme list"
  run_next :: "uint64 \<Rightarrow> uint64"

definition NCPU :: "kmem \<Rightarrow> nat" where
  "NCPU s = length (kmems s)"

text \<open>\<open>memset(pa, c, PGSIZE)\<close>, seen through the first word of the frame.\<close>

definition junk :: "8 word \<Rightarrow> uint64" where
  "junk c = ucast c * 0x0101010101010101"

definition memset_page :: "kmem \<Rightarrow> uint64 \<Rightarrow> 8 word \<Rightarrow> kmem" where
  "memset_page s pa c = s\<lparr>run_next := (run_next s)(pa := junk c)\<rparr>"

text \<open>
  \<open>kfree(pa)\<close> on the CPU \<open>cpu_id\<close> (the value of \<open>cpuid()\<close>). \<open>kernel_end\<close> is the
  linker symbol \<open>end\<close> and \<open>PHYSTOP\<close> the constant of memlayout.h; both are
  parameters.
\<close>

definition kfree :: "uint64 \<Rightarrow> uint64 \<Rightarrow> kmem \<Rightarrow> nat \<Rightarrow> uint64 \<Rightarrow> failure + kmem" where
  "kfree kernel_end PHYSTOP s cpu_id pa =
     (if pa mod PGSIZE \<noteq> 0 \<or> pa < kernel_end \<or> pa \<ge> PHYSTOP then Inl (Panic ''kfree'')
      else
        let s1 = memset_page s pa 1;
            r = pa;
            s2 = s1\<lparr>run_next := (run_next s1)(r := freelist (kmems s1 ! cpu_id))\<rparr>
        in Inr (s2\<lparr>kmems := (kmems s2)[cpu_id := (kmems s2 ! cpu_id)\<lparr>freelist := r\<rparr>]\<rparr>))"

text \<open>
  Both places of \<open>kalloc\<close> that take a frame do the same: the head of list \<open>i\<close> is
  detached, the frame is filled with junk and returned.
\<close>

definition take_head :: "kmem \<Rightarrow> nat \<Rightarrow> kmem \<times> uint64" where
  "take_head s i =
     (let r = freelist (kmems s ! i);
          s1 = s\<lparr>kmems := (kmems s)[i := (kmems s ! i)\<lparr>freelist := run_next s r\<rparr>]\<rparr>
      in (memset_page s1 r 5, r))"

text \<open>The stealing loop \<open>for(int i = 0; i < NCPU; i++)\<close>, from \<open>i\<close> on.\<close>

function steal :: "kmem \<Rightarrow> nat \<Rightarrow> nat \<Rightarrow> kmem \<times> uint64" where
  "steal s cpu_id i =
     (if i < NCPU s then
        (if i \<noteq> cpu_id then
           (if i = NCPU s - 1 \<and> freelist (kmems s ! i) = 0 then (s, 0)
            else if freelist (kmems s ! i) \<noteq> 0 then take_head s i
            else steal s cpu_id (i + 1))
         else steal s cpu_id (i + 1))
      else (s, 0))"
  by pat_completeness auto
termination
  by (relation "measure (\<lambda>(s, cpu_id, i). NCPU s - i)") auto

declare steal.simps [simp del]

definition kalloc :: "kmem \<Rightarrow> nat \<Rightarrow> kmem \<times> uint64" where
  "kalloc s cpu_id =
     (let r = freelist (kmems s ! cpu_id)
      in if r \<noteq> 0 then take_head s cpu_id else steal s cpu_id 0)"

text \<open>
  The order in which \<open>kalloc\<close> looks at the free lists, in the words of the
  specification: the caller's own list, then every other CPU in ascending order.
\<close>

definition visit_order :: "kmem \<Rightarrow> nat \<Rightarrow> nat list" where
  "visit_order s cpu_id = cpu_id # filter (\<lambda>i. i \<noteq> cpu_id) [0..<NCPU s]"

definition nonempty :: "kmem \<Rightarrow> nat \<Rightarrow> bool" where
  "nonempty s i = (freelist (kmems s ! i) \<noteq> 0)"

section \<open>bio.c: the buffer cache\<close>

type_synonym uint = "32 word"

definition NBUK :: nat where
  "NBUK = 13"

text \<open>\<open>#define hash(dev, blockno) ((dev * blockno) % NBUK)\<close>, on \<open>uint\<close> operands.\<close>

definition hash :: "uint \<Rightarrow> uint \<Rightarrow> nat" where
  "hash dev blockno = unat ((dev * blockno) mod 13)"

text \<open>
  Modelled from the spec: the SleepLock of a Buf (sleeplock.h and sleeplock.c are not
  among the sources). The lock is held or free, and remembers the process that holds
  it; \<open>held?\<close> is asked by a process about itself.
\<close>

record sleeplock =
  locked :: bool
  pid :: nat

definition holdingsleep :: "sleeplock \<Rightarrow> nat \<Rightarrow> bool" where
  "holdingsleep lk p = (locked lk \<and> pid lk = p)"

text \<open>
  Modelled from the spec: \<open>struct buf\<close> (buf.h is not among the sources), with the
  fields bio.c uses. \<open>dev\<close> and \<open>blockno\<close> have the type of the parameters of
  \<open>bget\<close>; \<open>refcnt\<close> and \<open>timestamp\<close> are 32-bit counters, and \<open>timestamp\<close> is
  compared as the tick counter \<open>uint ticks\<close> is, unsigned. \<open>next\<close> is a pointer into
  \<open>bcache.buf\<close>, an index, or null. The block's bytes are not modelled.
\<close>

record buf =
  valid :: bool
  dev :: uint
  blockno :: uint
  lock :: sleeplock
  refcnt :: uint
  timestamp :: uint
  "next" :: "nat option"

text \<open>\<open>struct bucket\<close>. Its spin-lock is followed in the trace below.\<close>

record bucket =
  head :: buf

text \<open>The spin-locks of bio.c: \<open>bcache.lock\<close> and \<open>bcache.buckets[i].lock\<close>.\<close>

datatype spinlock = Bcache_lock | Bucket_lock nat

text \<open>
  A \<open>struct buf *\<close> that is followed through \<open>->next\<close> points at the sentinel
  \<open>bcache.buckets[i].head\<close> or at \<open>bcache.buf[j]\<close>.
\<close>

datatype ptr = Head nat | Buf nat

text \<open>
  What a run of the code does to locks, chains and counters, in the order of the
  statements. \<open>Unlink b i\<close> takes Buf \<open>b\<close> out of the chain of bucket \<open>i\<close> (line 120),
  \<open>Link b i\<close> puts it at the head of the chain of bucket \<open>i\<close> (lines 128 and 129).
  \<open>DiskRW b w\<close> is \<open>virtio_disk_rw(b, w)\<close>. \<open>binit\<close>, which runs once before every
  other operation and builds the first chain, leaves no events.
\<close>

datatype event =
    Acquire spinlock
  | Release spinlock
  | AcquireSleep nat
  | ReleaseSleep nat
  | Unlink nat nat
  | Link nat nat
  | SetRefcnt nat uint
  | SetTimestamp nat uint
  | DiskRW nat bool

text \<open>
  The global \<open>bcache\<close>, the global tick counter \<open>ticks\<close> that bio.c reads, and the
  trace of events so far, the latest event first. \<open>NBUF\<close> (param.h) is the length
  of \<open>buf\<close>; \<open>buckets\<close> is only ever indexed below \<open>NBUK\<close>.
\<close>

record bcache =
  buf :: "buf list"
  buckets :: "nat \<Rightarrow> bucket"
  ticks :: uint
  trace :: "event list"

text \<open>
  Modelled from the spec: SpinLock \<open>acquire\<close> and \<open>release\<close> (spinlock.c is not among
  the sources). In a sequential run they only change which locks the caller holds.
\<close>

definition acquire :: "spinlock \<Rightarrow> bcache \<Rightarrow> bcache" where
  "acquire lk s = s\<lparr>trace := Acquire lk # trace s\<rparr>"

definition release :: "spinlock \<Rightarrow> bcache \<Rightarrow> bcache" where
  "release lk s = s\<lparr>trace := Release lk # trace s\<rparr>"

definition log :: "event \<Rightarrow> bcache \<Rightarrow> bcache" where
  "log e s = s\<lparr>trace := e # trace s\<rparr>"

definition upd_buf :: "nat \<Rightarrow> (buf \<Rightarrow> buf) \<Rightarrow> bcache \<Rightarrow> bcache" where
  "upd_buf n f s = s\<lparr>buf := (buf s)[n := f (buf s ! n)]\<rparr>"

text \<open>
  Modelled from the spec: SleepLock \<open>acquire\<close> and \<open>release\<close>. Acquiring a held lock
  suspends the caller.
\<close>

definition acquiresleep :: "bcache \<Rightarrow> nat \<Rightarrow> nat \<Rightarrow> failure + bcache" where
  "acquiresleep s p n =
     (if locked (lock (buf s ! n)) then Inl Blocked
      else Inr (log (AcquireSleep n) (upd_buf n (\<lambda>b. b\<lparr>lock := \<lparr>locked = True, pid = p\<rparr>\<rparr>) s)))"

definition releasesleep :: "bcache \<Rightarrow> nat \<Rightarrow> bcache" where
  "releasesleep s n =
     log (ReleaseSleep n) (upd_buf n (\<lambda>b. b\<lparr>lock := \<lparr>locked = False, pid = 0\<rparr>\<rparr>) s)"

text \<open>
  Modelled from the spec: \<open>DiskIO.rw(buf, direction)\<close>, synchronous and infallible
  (virtio_disk.c is not among the sources).
\<close>

definition virtio_disk_rw :: "bcache \<Rightarrow> nat \<Rightarrow> bool \<Rightarrow> bcache" where
  "virtio_disk_rw s b w = log (DiskRW b w) s"

text \<open>\<open>p->next\<close> and \<open>p->next = v\<close> for a pointer \<open>p\<close> that is not null.\<close>

fun next_of :: "bcache \<Rightarrow> ptr \<Rightarrow> nat option" where
  "next_of s (Head i) = next (head (buckets s i))"
| "next_of s (Buf j) = next (buf s ! j)"

fun set_next :: "ptr \<Rightarrow> nat option \<Rightarrow> bcache \<Rightarrow> bcache" where
  "set_next (Head i) v s =
     s\<lparr>buckets := (buckets s)(i := (buckets s i)\<lparr>head := (head (buckets s i))\<lparr>next := v\<rparr>\<rparr>)\<rparr>"
| "set_next (Buf j) v s = upd_buf j (\<lambda>b. b\<lparr>next := v\<rparr>) s"

text \<open>
  The loop \<open>while(b){ if(b->dev == dev && b->blockno == blockno) ...; b = b->next; }\<close>
  of lines 79 to 87 and again of lines 134 to 143: the first Buf of the chain from \<open>b\<close>
  with the identity looked for, or null. The chain lies in an array of \<open>NBUF\<close> Bufs,
  so a walk that has followed \<open>NBUF\<close> links without reaching null is on a cycle and
  never ends; \<open>fuel\<close> counts the links.
\<close>

fun find_buf :: "nat \<Rightarrow> bcache \<Rightarrow> uint \<Rightarrow> uint \<Rightarrow> nat option \<Rightarrow> failure + nat option" where
  "find_buf fuel s dv bn None = Inr None"
| "find_buf fuel s dv bn (Some n) =
     (if length (buf s) \<le> n then Inl WildPointer
      else if dev (buf s ! n) = dv \<and> blockno (buf s ! n) = bn then Inr (Some n)
      else (case fuel of 0 \<Rightarrow> Inl Hang
            | Suc fuel' \<Rightarrow> find_buf fuel' s dv bn (next (buf s ! n))))"

text \<open>
  The two places of \<open>bget\<close> that return a Buf found in the chain: \<open>b->refcnt++\<close>, the
  spin-locks held are released in the order given, then \<open>acquiresleep(&b->lock)\<close>.
\<close>

definition bget_found :: "bcache \<Rightarrow> nat \<Rightarrow> nat \<Rightarrow> spinlock list \<Rightarrow> failure + (bcache \<times> nat)" where
  "bget_found s p b lks =
     (let s1 = log (SetRefcnt b (refcnt (buf s ! b) + 1))
                 (upd_buf b (\<lambda>x. x\<lparr>refcnt := refcnt x + 1\<rparr>) s);
          s2 = fold release lks s1
      in case acquiresleep s2 p b of Inl e \<Rightarrow> Inl e | Inr s3 \<Rightarrow> Inr (s3, b))"

text \<open>
  The inner loop \<open>while(prev_b->next)\<close> of lines 100 to 107, on the local variables
  \<open>max_timestamp\<close>, \<open>is_better\<close> and \<open>prev_lru_b\<close>.
\<close>

fun lru_walk :: "nat \<Rightarrow> bcache \<Rightarrow> ptr \<Rightarrow> uint \<times> bool \<times> ptr option
    \<Rightarrow> failure + (uint \<times> bool \<times> ptr option)" where
  "lru_walk fuel s prev_b (max_timestamp, is_better, prev_lru_b) =
     (case next_of s prev_b of
        None \<Rightarrow> Inr (max_timestamp, is_better, prev_lru_b)
      | Some n \<Rightarrow>
          if length (buf s) \<le> n then Inl WildPointer
          else
            let acc = (if refcnt (buf s ! n) = 0 \<and> timestamp (buf s ! n) \<ge> max_timestamp
                       then (timestamp (buf s ! n), True, Some prev_b)
                       else (max_timestamp, is_better, prev_lru_b))
            in (case fuel of 0 \<Rightarrow> Inl Hang
                | Suc fuel' \<Rightarrow> lru_walk fuel' s (Buf n) acc))"

text \<open>
  The loop \<open>for(int i = 0; i < NBUK; i++)\<close> of lines 97 to 116, from \<open>i\<close> on.
  \<open>is_better\<close> is 0 at the start of every round.
\<close>

function lru_scan :: "nat \<Rightarrow> bcache \<Rightarrow> uint \<Rightarrow> int \<Rightarrow> ptr option
    \<Rightarrow> failure + (bcache \<times> uint \<times> int \<times> ptr option)" where
  "lru_scan i s max_timestamp lru_buk_id prev_lru_b =
     (if i < NBUK then
        (let s1 = acquire (Bucket_lock i) s
         in case lru_walk (length (buf s1)) s1 (Head i) (max_timestamp, False, prev_lru_b) of
              Inl e \<Rightarrow> Inl e
            | Inr (m, is_better, pl) \<Rightarrow>
                if is_better then
                  lru_scan (i + 1)
                    (if lru_buk_id \<noteq> - 1 then release (Bucket_lock (nat lru_buk_id)) s1 else s1)
                    m (int i) pl
                else lru_scan (i + 1) (release (Bucket_lock i) s1) m lru_buk_id pl)
      else Inr (s, max_timestamp, lru_buk_id, prev_lru_b))"
  by pat_completeness auto
termination
  by (relation "measure (\<lambda>(i, s, m, k, pl). NBUK - i)") auto

declare lru_scan.simps [simp del]

text \<open>
  Lines 91 to 117: the scan from its initial values, then \<open>lru_b = prev_lru_b->next\<close>.
  \<open>prev_lru_b\<close> is still null when the scan has met no Buf with \<open>refcnt == 0\<close>.
\<close>

definition select_lru :: "bcache \<Rightarrow> failure + (bcache \<times> int \<times> ptr \<times> nat option)" where
  "select_lru s =
     (case lru_scan 0 s 0 (- 1) None of
        Inl e \<Rightarrow> Inl e
      | Inr (s1, m, lru_buk_id, prev_lru_b) \<Rightarrow>
          (case prev_lru_b of
             None \<Rightarrow> Inl NullDeref
           | Some pl \<Rightarrow> Inr (s1, lru_buk_id, pl, next_of s1 pl)))"

text \<open>Lines 119 to 122: the candidate is taken out of its chain.\<close>

definition unlink_lru :: "bcache \<Rightarrow> int \<Rightarrow> ptr \<Rightarrow> nat option \<Rightarrow> failure + bcache" where
  "unlink_lru s lru_buk_id prev_lru_b lru_b =
     (case lru_b of
        None \<Rightarrow> Inr s
      | Some l \<Rightarrow>
          if length (buf s) \<le> l then Inl WildPointer
          else Inr (release (Bucket_lock (nat lru_buk_id))
                 (log (Unlink l (nat lru_buk_id))
                   (set_next prev_lru_b (next (buf s ! l)) s))))"

text \<open>Lines 127 to 130: the candidate is put at the head of the target chain.\<close>

definition link_lru :: "bcache \<Rightarrow> nat \<Rightarrow> nat option \<Rightarrow> bcache" where
  "link_lru s buk_id lru_b =
     (case lru_b of
        None \<Rightarrow> s
      | Some l \<Rightarrow>
          log (Link l buk_id)
            (set_next (Head buk_id) (Some l)
              (set_next (Buf l) (next (head (buckets s buk_id))) s)))"

text \<open>Lines 148 to 155: the candidate takes the new identity.\<close>

definition install :: "bcache \<Rightarrow> nat \<Rightarrow> uint \<Rightarrow> uint \<Rightarrow> nat \<Rightarrow> nat \<Rightarrow> failure + (bcache \<times> nat)" where
  "install s p dv bn buk_id l =
     (let s1 = log (SetRefcnt l 1)
                 (upd_buf l (\<lambda>x. x\<lparr>dev := dv, blockno := bn, valid := False, refcnt := 1\<rparr>) s);
          s2 = release Bcache_lock (release (Bucket_lock buk_id) s1)
      in case acquiresleep s2 p l of Inl e \<Rightarrow> Inl e | Inr s3 \<Rightarrow> Inr (s3, l))"

text \<open>Lines 91 to 155 of \<open>bget\<close>, after the miss in the target bucket.\<close>

definition bget_miss :: "bcache \<Rightarrow> nat \<Rightarrow> uint \<Rightarrow> uint \<Rightarrow> nat \<Rightarrow> failure + (bcache \<times> nat)" where
  "bget_miss s p dv bn buk_id =
     (case select_lru s of
        Inl e \<Rightarrow> Inl e
      | Inr (s1, lru_buk_id, prev_lru_b, lru_b) \<Rightarrow>
          (case unlink_lru s1 lru_buk_id prev_lru_b lru_b of
             Inl e \<Rightarrow> Inl e
           | Inr s2 \<Rightarrow>
               let s3 = acquire (Bucket_lock buk_id) (acquire Bcache_lock s2);
                   s4 = link_lru s3 buk_id lru_b
               in (case find_buf (length (buf s4)) s4 dv bn (next (head (buckets s4 buk_id))) of
                     Inl e \<Rightarrow> Inl e
                   | Inr (Some b) \<Rightarrow> bget_found s4 p b [Bucket_lock buk_id, Bcache_lock]
                   | Inr None \<Rightarrow>
                       (case lru_b of
                          None \<Rightarrow> Inl (Panic ''bget: no buffers'')
                        | Some l \<Rightarrow> install s4 p dv bn buk_id l))))"

text \<open>\<open>bget(dev, blockno)\<close>, called by process \<open>p\<close>.\<close>

definition bget :: "bcache \<Rightarrow> nat \<Rightarrow> uint \<Rightarrow> uint \<Rightarrow> failure + (bcache \<times> nat)" where
  "bget s p dv bn =
     (let buk_id = hash dv bn;
          s1 = acquire (Bucket_lock buk_id) s
      in case find_buf (length (buf s1)) s1 dv bn (next (head (buckets s1 buk_id))) of
           Inl e \<Rightarrow> Inl e
         | Inr (Some b) \<Rightarrow> bget_found s1 p b [Bucket_lock buk_id]
         | Inr None \<Rightarrow> bget_miss (release (Bucket_lock buk_id) s1) p dv bn buk_id)"

definition bread :: "bcache \<Rightarrow> nat \<Rightarrow> uint \<Rightarrow> uint \<Rightarrow> failure + (bcache \<times> nat)" where
  "bread s p dv bn =
     (case bget s p dv bn of
        Inl e \<Rightarrow> Inl e
      | Inr (s1, b) \<Rightarrow>
          if \<not> valid (buf s1 ! b)
          then Inr (upd_buf b (\<lambda>x. x\<lparr>valid := True\<rparr>) (virtio_disk_rw s1 b False), b)
          else Inr (s1, b))"

text \<open>
  The functions below take a \<open>struct buf *b\<close> from their caller: an index into
  \<open>bcache.buf\<close>.
\<close>

definition bwrite :: "bcache \<Rightarrow> nat \<Rightarrow> nat \<Rightarrow> failure + bcache" where
  "bwrite s p b =
     (if length (buf s) \<le> b then Inl WildPointer
      else if \<not> holdingsleep (lock (buf s ! b)) p then Inl (Panic ''bwrite'')
      else Inr (virtio_disk_rw s b True))"

definition brelse :: "bcache \<Rightarrow> nat \<Rightarrow> nat \<Rightarrow> failure + bcache" where
  "brelse s p b =
     (if length (buf s) \<le> b then Inl WildPointer
      else if \<not> holdingsleep (lock (buf s ! b)) p then Inl (Panic ''brelse'')
      else
        let s1 = releasesleep s b;
            buk_id = hash (dev (buf s1 ! b)) (blockno (buf s1 ! b));
            s2 = acquire (Bucket_lock buk_id) s1;
            s3 = log (SetRefcnt b (refcnt (buf s2 ! b) - 1))
                   (upd_buf b (\<lambda>x. x\<lparr>refcnt := refcnt x - 1\<rparr>) s2);
            s4 = (if refcnt (buf s3 ! b) = 0
                  then log (SetTimestamp b (ticks s3))
                         (upd_buf b (\<lambda>x. x\<lparr>timestamp := ticks s3\<rparr>) s3)
                  else s3)
        in Inr (release (Bucket_lock buk_id) s4))"

definition bpin :: "bcache \<Rightarrow> nat \<Rightarrow> failure + bcache" where
  "bpin s b =
     (if length (buf s) \<le> b then Inl WildPointer
      else
        let buk_id = hash (dev (buf s ! b)) (blockno (buf s ! b));
            s1 = acquire (Bucket_lock buk_id) s;
            s2 = log (SetRefcnt b (refcnt (buf s1 ! b) + 1))
                   (upd_buf b (\<lambda>x. x\<lparr>refcnt := refcnt x + 1\<rparr>) s1)
        in Inr (release (Bucket_lock buk_id) s2))"

definition bunpin :: "bcache \<Rightarrow> nat \<Rightarrow> failure + bcache" where
  "bunpin s b =
     (if length (buf s) \<le> b then Inl WildPointer
      else
        let buk_id = hash (dev (buf s ! b)) (blockno (buf s ! b));
            s1 = acquire (Bucket_lock buk_id) s;
            s2 = log (SetRefcnt b (refcnt (buf s1 ! b) - 1))
                   (upd_buf b (\<lambda>x. x\<lparr>refcnt := refcnt x - 1\<rparr>) s1)
        in Inr (release (Bucket_lock buk_id) s2))"

text \<open>
  \<open>binit\<close>. The inner loop \<open>for(b = bcache.buf; b < bcache.buf + NBUF; b++)\<close> puts
  every Buf into the chain of bucket 0; \<open>nbuf\<close> is \<open>NBUF\<close>.
\<close>

function binit_bufs :: "nat \<Rightarrow> nat \<Rightarrow> ptr \<Rightarrow> bcache \<Rightarrow> bcache" where
  "binit_bufs nbuf b prev_b s =
     (if b < nbuf then
        (let s1 = (if b = nbuf - 1 then set_next (Buf b) None s else s);
             s2 = set_next prev_b (Some b) s1;
             s3 = upd_buf b (\<lambda>x. x\<lparr>timestamp := ticks s2\<rparr>) s2;
             s4 = upd_buf b (\<lambda>x. x\<lparr>lock := \<lparr>locked = False, pid = 0\<rparr>\<rparr>) s3
         in binit_bufs nbuf (b + 1) (Buf b) s4)
      else s)"
  by pat_completeness auto
termination
  by (relation "measure (\<lambda>(nbuf, b, prev_b, s). nbuf - b)") auto

declare binit_bufs.simps [simp del]

function binit_buckets :: "nat \<Rightarrow> bcache \<Rightarrow> bcache" where
  "binit_buckets i s =
     (if i < NBUK then
        (let s1 = set_next (Head i) None s;
             s2 = (if i = 0 then binit_bufs (length (buf s1)) 0 (Head i) s1 else s1)
         in binit_buckets (i + 1) s2)
      else s)"
  by pat_completeness auto
termination
  by (relation "measure (\<lambda>(i, s). NBUK - i)") auto

declare binit_buckets.simps [simp del]

definition binit :: "bcache \<Rightarrow> bcache" where
  "binit s = binit_buckets 0 s"

section \<open>Locks held along a trace\<close>

text \<open>
  Whether the caller holds spin-lock \<open>lk\<close> after the events of a trace (latest
  first): its latest \<open>acquire\<close> of \<open>lk\<close> has not been followed by a \<open>release\<close>.
\<close>

fun holding :: "event list \<Rightarrow> spinlock \<Rightarrow> bool" where
  "holding [] lk = False"
| "holding (e # tr) lk =
     (if e = Acquire lk then True else if e = Release lk then False else holding tr lk)"

text \<open>
  The locking rule for bucket membership in the words of the specification: at every
  \<open>Unlink b i\<close> and every \<open>Link b i\<close> of the trace the caller holds both the lock of
  bucket \<open>i\<close> and \<open>bcache.lock\<close>.
\<close>

fun moves_under_both_locks :: "event list \<Rightarrow> bool" where
  "moves_under_both_locks [] = True"
| "moves_under_both_locks (Unlink b i # tr) =
     (holding tr (Bucket_lock i) \<and> holding tr Bcache_lock \<and> moves_under_both_locks tr)"
| "moves_under_both_locks (Link b i # tr) =
     (holding tr (Bucket_lock i) \<and> holding tr Bcache_lock \<and> moves_under_both_locks tr)"
| "moves_under_both_locks (e # tr) = moves_under_both_locks tr"

text \<open>
  The rule the code follows: at every \<open>Unlink b i\<close> the caller holds the lock of
  bucket \<open>i\<close>; at every \<open>Link b i\<close> it holds the lock of bucket \<open>i\<close> and
  \<open>bcache.lock\<close>.
\<close>

fun moves_locked :: "event list \<Rightarrow> bool" where
  "moves_locked [] = True"
| "moves_locked (Unlink b i # tr) = (holding tr (Bucket_lock i) \<and> moves_locked tr)"
| "moves_locked (Link b i # tr) =
     (holding tr (Bucket_lock i) \<and> holding tr Bcache_lock \<and> moves_locked tr)"
| "moves_locked (e # tr) = moves_locked tr"

text \<open>
  The points of a trace at which a Buf changes bucket, latest first: each \<open>Unlink b i\<close>
  and each \<open>Link b i\<close> together with whether the caller holds the lock of bucket
  \<open>i\<close>, and whether it holds \<open>bcache.lock\<close>, at that point.
\<close>

fun move_points :: "event list \<Rightarrow> (event \<times> bool \<times> bool) list" where
  "move_points [] = []"
| "move_points (Unlink b i # tr) =
     (Unlink b i, holding tr (Bucket_lock i), holding tr Bcache_lock) # move_points tr"
| "move_points (Link b i # tr) =
     (Link b i, holding tr (Bucket_lock i), holding tr Bcache_lock) # move_points tr"
| "move_points (e # tr) = move_points tr"

text \<open>
  The candidate of the eviction scan is sound when \<open>prev_lru_b\<close> is null or points at
  the predecessor of a Buf of the array with \<open>refcnt == 0\<close>.
\<close>

definition cand_ok :: "bcache \<Rightarrow> ptr option \<Rightarrow> bool" where
  "cand_ok s pl =
     (case pl of
        None \<Rightarrow> True
      | Some q \<Rightarrow>
          (case next_of s q of
             None \<Rightarrow> False
           | Some e \<Rightarrow> e < length (buf s) \<and> refcnt (buf s ! e) = 0))"

section \<open>Chains and the order of the eviction scan\<close>

text \<open>
  The chain from pointer \<open>p\<close> is the list \<open>ns\<close> of Bufs of the array: \<open>p\<close> points at the
  first, each \<open>next\<close> at the following one, and the last \<open>next\<close> is null.
\<close>

fun is_chain :: "buf list \<Rightarrow> nat option \<Rightarrow> nat list \<Rightarrow> bool" where
  "is_chain bs p [] = (p = None)"
| "is_chain bs p (n # ns) = (p = Some n \<and> n < length bs \<and> is_chain bs (next (bs ! n)) ns)"

text \<open>Every bucket's chain is such a list: \<open>cs i\<close> for bucket \<open>i\<close>.\<close>

definition chains :: "bcache \<Rightarrow> (nat \<Rightarrow> nat list) \<Rightarrow> bool" where
  "chains s cs = list_all (\<lambda>i. is_chain (buf s) (next (head (buckets s i))) (cs i)) [0..<NBUK]"

text \<open>
  The order in which the eviction scan meets the Bufs: bucket 0 to bucket
  \<open>NBUK - 1\<close>, each chain from its head.
\<close>

definition scan_order :: "(nat \<Rightarrow> nat list) \<Rightarrow> nat list" where
  "scan_order cs = concat (map cs [0..<NBUK])"

text \<open>
  For the proofs: the Bufs of a chain, each with the pointer whose \<open>next\<close> points at
  it; the scan as a fold over these pairs; a Buf is free when its \<open>refcnt\<close> is 0.
\<close>

definition links :: "ptr \<Rightarrow> nat list \<Rightarrow> (ptr \<times> nat) list" where
  "links q ns = zip (q # map Buf ns) ns"

fun pick :: "buf list \<Rightarrow> (ptr \<times> nat) list \<Rightarrow> uint \<times> ptr option \<Rightarrow> uint \<times> ptr option" where
  "pick bs [] acc = acc"
| "pick bs ((q, n) # xs) (m, pl) =
     pick bs xs (if refcnt (bs ! n) = 0 \<and> m \<le> timestamp (bs ! n)
                 then (timestamp (bs ! n), Some q) else (m, pl))"

definition all_links :: "(nat \<Rightarrow> nat list) \<Rightarrow> nat \<Rightarrow> (ptr \<times> nat) list" where
  "all_links cs i = concat (map (\<lambda>j. links (Head j) (cs j)) [i..<NBUK])"

definition free :: "buf list \<Rightarrow> nat \<Rightarrow> bool" where
  "free bs n = (refcnt (bs ! n) = 0)"

text \<open>
  The chain from \<open>p\<close> runs through the Bufs \<open>ns\<close> and then reaches the pointer \<open>q\<close>:
  a segment of a chain.
\<close>

fun path :: "buf list \<Rightarrow> nat option \<Rightarrow> nat list \<Rightarrow> nat option \<Rightarrow> bool" where
  "path bs p [] q = (p = q)"
| "path bs p (n # ns) q = (p = Some n \<and> n < length bs \<and> path bs (next (bs ! n)) ns q)"

text \<open>No Buf is in the chains of two buckets.\<close>

definition separate :: "(nat \<Rightarrow> nat list) \<Rightarrow> bool" where
  "separate cs =
     list_all (\<lambda>i. list_all (\<lambda>j. i = j \<or> set (cs i) \<inter> set (cs j) = {}) [0..<NBUK]) [0..<NBUK]"

text \<open>Buf \<open>n\<close> has the identity looked for.\<close>

definition matches :: "bcache \<Rightarrow> uint \<Rightarrow> uint \<Rightarrow> nat \<Rightarrow> bool" where
  "matches s dv bn n = (dev (buf s ! n) = dv \<and> blockno (buf s ! n) = bn)"

text \<open>
  The chains \<open>cs\<close> after Buf \<open>e\<close> has been taken out of the chain of bucket \<open>k\<close> and put
  at the front of the chain of bucket \<open>buk_id\<close>.
\<close>

definition move_buf :: "(nat \<Rightarrow> nat list) \<Rightarrow> nat \<Rightarrow> nat \<Rightarrow> nat \<Rightarrow> nat \<Rightarrow> nat list" where
  "move_buf cs e k buk_id =
     (cs(k := remove1 e (cs k)))(buk_id := e # (cs(k := remove1 e (cs k))) buk_id)"

section \<open>Identity\<close>

text \<open>The identity of Buf \<open>n\<close>: its \<open>dev\<close> and \<open>blockno\<close>.\<close>

definition ident :: "bcache \<Rightarrow> nat \<Rightarrow> uint \<times> uint" where
  "ident s n = (dev (buf s ! n), blockno (buf s ! n))"

section \<open>Concrete states\<close>

text \<open>
  \<open>bcache\<close> as the kernel is loaded: a global of \<open>nbuf\<close> Bufs, all bytes zero. The
  tick counter stands at \<open>tk\<close>.
\<close>

definition zero_buf :: buf where
  "zero_buf = \<lparr>valid = False, dev = 0, blockno = 0, lock = \<lparr>locked = False, pid = 0\<rparr>,
               refcnt = 0, timestamp = 0, next = None\<rparr>"

definition zeroed :: "nat \<Rightarrow> uint \<Rightarrow> bcache" where
  "zeroed nbuf tk =
     \<lparr>buf = replicate nbuf zero_buf, buckets = (\<lambda>i. \<lparr>head = zero_buf\<rparr>), ticks = tk, trace = []\<rparr>"

text \<open>
  \<open>booted\<close> is the cache after \<open>binit\<close> with \<open>NBUF = 2\<close> at tick 7. Then process 1
  reads block (1, 1) and holds it; then it also reads and holds block (1, 2), so that
  every Buf is pinned.
\<close>

definition booted :: bcache where
  "booted = binit (zeroed 2 7)"

definition one_held :: bcache where
  "one_held = fst (projr (bread booted 1 1 1))"

definition two_held :: bcache where
  "two_held = fst (projr (bread one_held 1 1 2))"

text \<open>
  Process 1 pins the Buf of block (1, 1), which is Buf 1, and releases it; the tick
  counter moves on to 9.
\<close>

definition pinned_released :: bcache where
  "pinned_released = (projr (brelse (projr (bpin one_held 1)) 1 1))\<lparr>ticks := 9\<rparr>"

text \<open>
  Process 1 holds the Buf of block (1, 1), stamped at tick 7, and the tick counter has
  moved on to 9.
\<close>

definition one_held_later :: bcache where
  "one_held_later = one_held\<lparr>ticks := 9\<rparr>"

definition two_cpus :: kmem where
  "two_cpus = \<lparr>kmems = [\<lparr>freelist = 0\<rparr>, \<lparr>freelist = 0x87FFF000\<rparr>], run_next = (\<lambda>a. 0)\<rparr>"

section \<open>The steps of bget: what they leave unchanged\<close>

declare lru_walk.simps [simp del]
declare find_buf.simps(2) [simp del]

lemma acquire_fields [simp]:
  "buf (acquire lk s) = buf s" "buckets (acquire lk s) = buckets s"
  "ticks (acquire lk s) = ticks s" "trace (acquire lk s) = Acquire lk # trace s"
  by (simp_all add: acquire_def)

lemma release_fields [simp]:
  "buf (release lk s) = buf s" "buckets (release lk s) = buckets s"
  "ticks (release lk s) = ticks s" "trace (release lk s) = Release lk # trace s"
  by (simp_all add: release_def)

lemma log_fields [simp]:
  "buf (log e s) = buf s" "buckets (log e s) = buckets s"
  "ticks (log e s) = ticks s" "trace (log e s) = e # trace s"
  by (simp_all add: log_def)

lemma upd_buf_fields [simp]:
  "buf (upd_buf n f s) = (buf s)[n := f (buf s ! n)]" "buckets (upd_buf n f s) = buckets s"
  "ticks (upd_buf n f s) = ticks s" "trace (upd_buf n f s) = trace s"
  by (simp_all add: upd_buf_def)

lemma next_of_cong: "buf s = buf s' \<Longrightarrow> buckets s = buckets s' \<Longrightarrow> next_of s q = next_of s' q"
  by (cases q) simp_all

lemma lru_walk_cong:
  "buf s = buf s' \<Longrightarrow> buckets s = buckets s' \<Longrightarrow> lru_walk fuel s q acc = lru_walk fuel s' q acc"
proof (induction fuel arbitrary: q acc)
  case 0
  then show ?case
    by (cases acc) (simp add: lru_walk.simps next_of_cong [of s s'] Let_def split: option.splits)
next
  case (Suc fuel)
  then show ?case
    by (cases acc) (simp add: lru_walk.simps next_of_cong [of s s'] Let_def split: option.splits)
qed

lemma lru_walk_inv:
  "lru_walk fuel s q (m, ib, pl) = Inr (m', ib', pl') \<Longrightarrow> cand_ok s pl \<Longrightarrow> (ib \<longrightarrow> pl \<noteq> None) \<Longrightarrow>
   cand_ok s pl' \<and> (ib' \<longrightarrow> pl' \<noteq> None) \<and> (\<not> ib' \<longrightarrow> pl' = pl \<and> m' = m) \<and> (ib \<longrightarrow> ib')"
proof (induction fuel arbitrary: q m ib pl)
  case 0
  then show ?case
    by (auto simp: lru_walk.simps Let_def split: option.splits if_splits)
next
  case (Suc fuel)
  show ?case
  proof (cases "next_of s q")
    case None
    with Suc.prems show ?thesis by (simp add: lru_walk.simps)
  next
    case (Some n)
    show ?thesis
    proof (cases "refcnt (buf s ! n) = 0 \<and> m \<le> timestamp (buf s ! n)")
      case True
      with Some Suc.prems have w: "lru_walk fuel s (Buf n) (timestamp (buf s ! n), True, Some q) = Inr (m', ib', pl')"
        and n: "n < length (buf s)"
        by (auto simp: lru_walk.simps Let_def split: if_splits)
      from n Some True have "cand_ok s (Some q)" by (simp add: cand_ok_def)
      from Suc.IH [OF w this] show ?thesis by auto
    next
      case False
      with Some Suc.prems have w: "lru_walk fuel s (Buf n) (m, ib, pl) = Inr (m', ib', pl')"
        by (auto simp: lru_walk.simps Let_def split: if_splits)
      from Suc.IH [OF w Suc.prems(2,3)] show ?thesis by auto
    qed
  qed
qed

lemma cand_ok_cong: "buf s = buf s' \<Longrightarrow> buckets s = buckets s' \<Longrightarrow> cand_ok s pl = cand_ok s' pl"
  by (simp add: cand_ok_def next_of_cong [of s s'] split: option.splits)

lemma lru_scan_done: "\<not> i < NBUK \<Longrightarrow> lru_scan i s m k pl = Inr (s, m, k, pl)"
  by (subst lru_scan.simps) simp

lemma lru_scan_step:
  "i < NBUK \<Longrightarrow> lru_scan i s m k pl =
     (case lru_walk (length (buf s)) s (Head i) (m, False, pl) of
        Inl e \<Rightarrow> Inl e
      | Inr (m1, ib, pl1) \<Rightarrow>
          if ib then
            lru_scan (Suc i)
              (if k \<noteq> - 1 then release (Bucket_lock (nat k)) (acquire (Bucket_lock i) s)
               else acquire (Bucket_lock i) s) m1 (int i) pl1
          else lru_scan (Suc i) (release (Bucket_lock i) (acquire (Bucket_lock i) s)) m1 k pl1)"
  by (subst lru_scan.simps)
     (simp add: Let_def lru_walk_cong [of "acquire (Bucket_lock i) s" s] split: sum.splits)

lemma lru_scan_fields:
  "lru_scan i s m k pl = Inr (s', m', k', pl') \<Longrightarrow> cand_ok s pl \<Longrightarrow>
   buf s' = buf s \<and> buckets s' = buckets s \<and> ticks s' = ticks s \<and> cand_ok s pl'"
proof (induction "NBUK - i" arbitrary: i s m k pl)
  case 0
  then show ?case by (simp add: lru_scan_done)
next
  case (Suc d)
  then have i: "i < NBUK" and d: "d = NBUK - Suc i" by simp_all
  from Suc.prems(1) i obtain m1 ib pl1 where
    w: "lru_walk (length (buf s)) s (Head i) (m, False, pl) = Inr (m1, ib, pl1)"
    by (auto simp: lru_scan_step split: sum.splits)
  from lru_walk_inv [OF w Suc.prems(2)] have c1: "cand_ok s pl1" by simp
  show ?case
  proof (cases ib)
    case True
    let ?s = "if k \<noteq> - 1 then release (Bucket_lock (nat k)) (acquire (Bucket_lock i) s)
               else acquire (Bucket_lock i) s"
    from Suc.prems(1) i w True have r: "lru_scan (Suc i) ?s m1 (int i) pl1 = Inr (s', m', k', pl')"
      by (simp add: lru_scan_step)
    have e: "buf ?s = buf s" "buckets ?s = buckets s" "ticks ?s = ticks s" by simp_all
    from c1 e have "cand_ok ?s pl1" by (simp add: cand_ok_cong [of ?s s])
    from Suc.hyps(1) [OF d r this] e show ?thesis
      by (simp add: cand_ok_cong [of ?s s])
  next
    case False
    let ?s = "release (Bucket_lock i) (acquire (Bucket_lock i) s)"
    from Suc.prems(1) i w False have r: "lru_scan (Suc i) ?s m1 k pl1 = Inr (s', m', k', pl')"
      by (simp add: lru_scan_step)
    have e: "buf ?s = buf s" "buckets ?s = buckets s" "ticks ?s = ticks s" by simp_all
    from c1 e have "cand_ok ?s pl1" by (simp add: cand_ok_cong [of ?s s])
    from Suc.hyps(1) [OF d r this] e show ?thesis
      by (simp add: cand_ok_cong [of ?s s])
  qed
qed

lemma moves_locked_lock_event [simp]:
  "moves_locked (Acquire lk # tr) = moves_locked tr"
  "moves_locked (Release lk # tr) = moves_locked tr"
  by simp_all

lemma lru_scan_locks:
  "lru_scan i s m k pl = Inr (s', m', k', pl') \<Longrightarrow> - 1 \<le> k \<Longrightarrow> k < int i \<Longrightarrow>
   (pl \<noteq> None \<longrightarrow> 0 \<le> k \<and> holding (trace s) (Bucket_lock (nat k))) \<Longrightarrow>
   moves_locked (trace s) \<Longrightarrow> cand_ok s pl \<Longrightarrow>
   (pl' \<noteq> None \<longrightarrow> 0 \<le> k' \<and> holding (trace s') (Bucket_lock (nat k'))) \<and>
   moves_locked (trace s')"
proof (induction "NBUK - i" arbitrary: i s m k pl)
  case 0
  then show ?case by (simp add: lru_scan_done)
next
  case (Suc d)
  then have i: "i < NBUK" and d: "d = NBUK - Suc i" by simp_all
  from Suc.prems(1) i obtain m1 ib pl1 where
    w: "lru_walk (length (buf s)) s (Head i) (m, False, pl) = Inr (m1, ib, pl1)"
    by (auto simp: lru_scan_step split: sum.splits)
  from lru_walk_inv [OF w Suc.prems(6)]
  have c1: "cand_ok s pl1" and b1: "ib \<longrightarrow> pl1 \<noteq> None" and b2: "\<not> ib \<longrightarrow> pl1 = pl" by simp_all
  show ?case
  proof (cases ib)
    case True
    let ?s = "if k \<noteq> - 1 then release (Bucket_lock (nat k)) (acquire (Bucket_lock i) s)
               else acquire (Bucket_lock i) s"
    from Suc.prems(1) i w True have r: "lru_scan (Suc i) ?s m1 (int i) pl1 = Inr (s', m', k', pl')"
      by (simp add: lru_scan_step)
    from Suc.prems(2,3) have ne: "k \<noteq> - 1 \<longrightarrow> nat k \<noteq> i" by auto
    then have h: "holding (trace ?s) (Bucket_lock (nat (int i)))" by simp
    have ml: "moves_locked (trace ?s)" using Suc.prems(5) by simp
    have c: "cand_ok ?s pl1" using c1 by (simp add: cand_ok_cong [of ?s s])
    from Suc.hyps(1) [OF d r _ _ _ ml c] h show ?thesis by simp
  next
    case False
    let ?s = "release (Bucket_lock i) (acquire (Bucket_lock i) s)"
    from Suc.prems(1) i w False have r: "lru_scan (Suc i) ?s m1 k pl1 = Inr (s', m', k', pl')"
      by (simp add: lru_scan_step)
    from False b2 have p: "pl1 = pl" by simp
    from Suc.prems(3,4) p
    have h: "pl1 \<noteq> None \<longrightarrow> 0 \<le> k \<and> holding (trace ?s) (Bucket_lock (nat k))" by auto
    have ml: "moves_locked (trace ?s)" using Suc.prems(5) by simp
    have c: "cand_ok ?s pl1" using c1 by (simp add: cand_ok_cong [of ?s s])
    from Suc.prems(3) have "k < int (Suc i)" by simp
    from Suc.hyps(1) [OF d r Suc.prems(2) this h ml c] show ?thesis by simp
  qed
qed

lemma nth_upd_field:
  "(\<And>x. F (f x) = F x) \<Longrightarrow> F ((xs[j := f (xs ! j)]) ! n) = F (xs ! n)"
  by (cases "j < length xs"; cases "j = n") (simp_all add: list_update_beyond)

lemma set_next_fields [simp]:
  "trace (set_next q v s) = trace s" "ticks (set_next q v s) = ticks s"
  "length (buf (set_next q v s)) = length (buf s)"
  by (cases q; simp)+

lemma set_next_ident [simp]: "ident (set_next q v s) n = ident s n"
  by (cases q) (simp_all add: ident_def nth_upd_field)

lemma set_next_refcnt [simp]: "refcnt (buf (set_next q v s) ! n) = refcnt (buf s ! n)"
  by (cases q) (simp_all add: nth_upd_field)

declare set_next.simps [simp del]

lemma ident_trace [simp]:
  "ident (acquire lk s) n = ident s n" "ident (release lk s) n = ident s n"
  "ident (log e s) n = ident s n"
  by (simp_all add: ident_def)

lemma ident_upd_buf:
  "(\<And>x. dev (f x) = dev x) \<Longrightarrow> (\<And>x. blockno (f x) = blockno x) \<Longrightarrow>
   ident (upd_buf j f s) n = ident s n"
  by (simp add: ident_def nth_upd_field)

lemma ident_upd_buf_other: "j \<noteq> n \<Longrightarrow> ident (upd_buf j f s) n = ident s n"
  by (simp add: ident_def)

lemma fold_release_fields [simp]:
  "buf (fold release lks s) = buf s" "buckets (fold release lks s) = buckets s"
  "ticks (fold release lks s) = ticks s"
  by (induction lks arbitrary: s) simp_all

lemma moves_locked_fold_release [simp]:
  "moves_locked (trace (fold release lks s)) = moves_locked (trace s)"
  by (induction lks arbitrary: s) simp_all

lemma acquiresleep_Inr:
  "acquiresleep s p n = Inr s' \<Longrightarrow>
   trace s' = AcquireSleep n # trace s \<and> length (buf s') = length (buf s) \<and>
   (\<forall>j. ident s' j = ident s j) \<and> buckets s' = buckets s \<and> ticks s' = ticks s"
  by (auto simp: acquiresleep_def ident_upd_buf split: if_splits)

lemma bget_found_Inr:
  assumes "bget_found s p b lks = Inr (s', r)"
  shows "r = b \<and> length (buf s') = length (buf s) \<and> (\<forall>j. ident s' j = ident s j) \<and>
         (moves_locked (trace s) \<longrightarrow> moves_locked (trace s'))"
proof -
  let ?s2 = "fold release lks (log (SetRefcnt b (refcnt (buf s ! b) + 1))
                 (upd_buf b (\<lambda>x. x\<lparr>refcnt := refcnt x + 1\<rparr>) s))"
  from assms have a: "acquiresleep ?s2 p b = Inr s'" and r: "r = b"
    by (auto simp: bget_found_def Let_def split: sum.splits)
  have i: "\<And>j. ident ?s2 j = ident s j"
    by (simp add: ident_def nth_upd_field)
  from acquiresleep_Inr [OF a] r i show ?thesis by simp
qed

lemma install_Inr:
  assumes "install s p dv bn buk_id l = Inr (s', r)"
  shows "r = l \<and> length (buf s') = length (buf s) \<and> (\<forall>j. j \<noteq> l \<longrightarrow> ident s' j = ident s j) \<and>
         (moves_locked (trace s) \<longrightarrow> moves_locked (trace s'))"
proof -
  let ?s2 = "release Bcache_lock (release (Bucket_lock buk_id) (log (SetRefcnt l 1)
                 (upd_buf l (\<lambda>x. x\<lparr>dev := dv, blockno := bn, valid := False, refcnt := 1\<rparr>) s)))"
  from assms have a: "acquiresleep ?s2 p l = Inr s'" and r: "r = l"
    by (auto simp: install_def Let_def split: sum.splits)
  have i: "\<And>j. j \<noteq> l \<Longrightarrow> ident ?s2 j = ident s j"
    by (simp add: ident_def)
  from acquiresleep_Inr [OF a] r i show ?thesis by simp
qed

lemma select_lru_Inr:
  assumes "select_lru s = Inr (s1, k, q, lb)"
  shows "\<exists>e. lb = Some e \<and> next_of s q = Some e \<and> e < length (buf s) \<and> refcnt (buf s ! e) = 0 \<and>
             buf s1 = buf s \<and> buckets s1 = buckets s \<and> ticks s1 = ticks s \<and>
             (moves_locked (trace s) \<longrightarrow>
                0 \<le> k \<and> holding (trace s1) (Bucket_lock (nat k)) \<and> moves_locked (trace s1))"
proof -
  from assms obtain m where
    sc: "lru_scan 0 s 0 (- 1) None = Inr (s1, m, k, Some q)" and lb: "lb = next_of s1 q"
    by (auto simp: select_lru_def split: sum.splits option.splits)
  have c0: "cand_ok s None" by (simp add: cand_ok_def)
  from lru_scan_fields [OF sc c0]
  have f: "buf s1 = buf s" "buckets s1 = buckets s" "ticks s1 = ticks s" and c: "cand_ok s (Some q)"
    by simp_all
  from f(1,2) have n: "next_of s1 q = next_of s q" by (rule next_of_cong)
  from c obtain e where e: "next_of s q = Some e" "e < length (buf s)" "refcnt (buf s ! e) = 0"
    by (auto simp: cand_ok_def split: option.splits)
  have "moves_locked (trace s) \<longrightarrow>
          0 \<le> k \<and> holding (trace s1) (Bucket_lock (nat k)) \<and> moves_locked (trace s1)"
  proof
    assume ml: "moves_locked (trace s)"
    from lru_scan_locks [OF sc _ _ _ ml c0]
    show "0 \<le> k \<and> holding (trace s1) (Bucket_lock (nat k)) \<and> moves_locked (trace s1)" by simp
  qed
  with e f n lb show ?thesis by simp
qed

lemma unlink_lru_Inr:
  assumes "unlink_lru s k q (Some e) = Inr s'"
  shows "length (buf s') = length (buf s) \<and> (\<forall>j. ident s' j = ident s j) \<and>
         (holding (trace s) (Bucket_lock (nat k)) \<longrightarrow> moves_locked (trace s) \<longrightarrow>
            moves_locked (trace s'))"
  using assms by (auto simp: unlink_lru_def split: if_splits)

lemma link_lru_Some:
  "length (buf (link_lru s buk_id (Some e))) = length (buf s) \<and>
   (\<forall>j. ident (link_lru s buk_id (Some e)) j = ident s j) \<and>
   (holding (trace s) (Bucket_lock buk_id) \<longrightarrow> holding (trace s) Bcache_lock \<longrightarrow>
      moves_locked (trace s) \<longrightarrow> moves_locked (trace (link_lru s buk_id (Some e))))"
  by (simp add: link_lru_def)

lemma ident_buf_eq: "buf s1 = buf s \<Longrightarrow> ident s1 j = ident s j"
  by (simp add: ident_def)

lemma bget_miss_Inr:
  assumes "bget_miss s p dv bn buk_id = Inr (s', r)"
  shows "\<exists>s1 k q e. select_lru s = Inr (s1, k, q, Some e) \<and> e < length (buf s) \<and>
           refcnt (buf s ! e) = 0 \<and> length (buf s') = length (buf s) \<and>
           (\<forall>j. j \<noteq> e \<longrightarrow> ident s' j = ident s j) \<and>
           (moves_locked (trace s) \<longrightarrow> moves_locked (trace s'))"
proof -
  from assms obtain s1 k q lb where sel: "select_lru s = Inr (s1, k, q, lb)"
    by (auto simp: bget_miss_def split: sum.splits)
  from select_lru_Inr [OF sel] obtain e where
    lb: "lb = Some e" and e: "e < length (buf s)" "refcnt (buf s ! e) = 0" and
    b1: "buf s1 = buf s" and
    l1: "moves_locked (trace s) \<longrightarrow>
           0 \<le> k \<and> holding (trace s1) (Bucket_lock (nat k)) \<and> moves_locked (trace s1)"
    by blast
  from assms sel lb obtain s2 where un: "unlink_lru s1 k q (Some e) = Inr s2"
    by (auto simp: bget_miss_def split: sum.splits)
  define s3 where "s3 = acquire (Bucket_lock buk_id) (acquire Bcache_lock s2)"
  define s4 where "s4 = link_lru s3 buk_id (Some e)"
  from unlink_lru_Inr [OF un] b1 have
    n2: "length (buf s2) = length (buf s)" and i2: "\<And>j. ident s2 j = ident s j" and
    l2: "moves_locked (trace s) \<longrightarrow> moves_locked (trace s2)"
    using l1 by (simp_all add: ident_buf_eq [OF b1])
  have n3: "length (buf s3) = length (buf s)" and i3: "\<And>j. ident s3 j = ident s j" and
    l3: "moves_locked (trace s) \<longrightarrow> moves_locked (trace s3)" and
    h3: "holding (trace s3) (Bucket_lock buk_id)" "holding (trace s3) Bcache_lock"
    using n2 i2 l2 by (simp_all add: s3_def)
  from link_lru_Some [of s3 buk_id e] have
    n4: "length (buf s4) = length (buf s)" and i4: "\<And>j. ident s4 j = ident s j" and
    l4: "moves_locked (trace s) \<longrightarrow> moves_locked (trace s4)"
    using n3 i3 l3 h3 by (simp_all add: s4_def)
  from assms sel lb un have
    fin: "(\<exists>b. bget_found s4 p b [Bucket_lock buk_id, Bcache_lock] = Inr (s', r)) \<or>
          install s4 p dv bn buk_id e = Inr (s', r)"
    by (auto simp: bget_miss_def s3_def s4_def Let_def split: sum.splits option.splits)
  then have "length (buf s') = length (buf s) \<and> (\<forall>j. j \<noteq> e \<longrightarrow> ident s' j = ident s j) \<and>
             (moves_locked (trace s) \<longrightarrow> moves_locked (trace s'))"
  proof
    assume "\<exists>b. bget_found s4 p b [Bucket_lock buk_id, Bcache_lock] = Inr (s', r)"
    then obtain b where "bget_found s4 p b [Bucket_lock buk_id, Bcache_lock] = Inr (s', r)" ..
    from bget_found_Inr [OF this] n4 i4 l4 show ?thesis by simp
  next
    assume "install s4 p dv bn buk_id e = Inr (s', r)"
    from install_Inr [OF this] n4 i4 l4 show ?thesis by simp
  qed
  with sel lb e show ?thesis by blast
qed

lemma bget_Inr:
  assumes "bget s p dv bn = Inr (s', r)"
  shows "length (buf s') = length (buf s) \<and>
         (moves_locked (trace s) \<longrightarrow> moves_locked (trace s')) \<and>
         (\<exists>e. e < length (buf s) \<and> refcnt (buf s ! e) = 0 \<and>
              (\<forall>j. j \<noteq> e \<longrightarrow> ident s' j = ident s j) \<or> (\<forall>j. ident s' j = ident s j))"
proof -
  define s1 where "s1 = acquire (Bucket_lock (hash dv bn)) s"
  from assms have
    "(\<exists>b. bget_found s1 p b [Bucket_lock (hash dv bn)] = Inr (s', r)) \<or>
     bget_miss (release (Bucket_lock (hash dv bn)) s1) p dv bn (hash dv bn) = Inr (s', r)"
    by (auto simp: bget_def s1_def Let_def split: sum.splits option.splits)
  then show ?thesis
  proof
    assume "\<exists>b. bget_found s1 p b [Bucket_lock (hash dv bn)] = Inr (s', r)"
    then obtain b where "bget_found s1 p b [Bucket_lock (hash dv bn)] = Inr (s', r)" ..
    from bget_found_Inr [OF this] show ?thesis by (simp add: s1_def)
  next
    assume "bget_miss (release (Bucket_lock (hash dv bn)) s1) p dv bn (hash dv bn) = Inr (s', r)"
    from bget_miss_Inr [OF this] show ?thesis by (auto simp: s1_def)
  qed
qed

lemma bread_Inr:
  assumes "bread s p dv bn = Inr (s', r)"
  shows "length (buf s') = length (buf s) \<and>
         (moves_locked (trace s) \<longrightarrow> moves_locked (trace s')) \<and>
         (\<exists>e. e < length (buf s) \<and> refcnt (buf s ! e) = 0 \<and>
              (\<forall>j. j \<noteq> e \<longrightarrow> ident s' j = ident s j) \<or> (\<forall>j. ident s' j = ident s j))"
proof -
  from assms obtain s1 where g: "bget s p dv bn = Inr (s1, r)" and
    s': "s' = s1 \<or> s' = upd_buf r (\<lambda>x. x\<lparr>valid := True\<rparr>) (virtio_disk_rw s1 r False)"
    by (auto simp: bread_def split: sum.splits if_splits)
  from s' have "length (buf s') = length (buf s1) \<and> (\<forall>j. ident s' j = ident s1 j) \<and>
     (moves_locked (trace s1) \<longrightarrow> moves_locked (trace s'))"
    by (auto simp: virtio_disk_rw_def ident_upd_buf)
  with bget_Inr [OF g] show ?thesis by auto
qed


lemma binit_bufs_ident: "ident (binit_bufs nbuf b q s) n = ident s n"
proof (induction "nbuf - b" arbitrary: b q s)
  case 0
  then show ?case by (subst binit_bufs.simps) simp
next
  case (Suc d)
  then have b: "b < nbuf" and d: "d = nbuf - Suc b" by simp_all
  from b show ?case
    by (subst binit_bufs.simps) (simp add: Let_def Suc.hyps(1) [OF d] ident_upd_buf)
qed

lemma binit_buckets_ident: "ident (binit_buckets i s) n = ident s n"
proof (induction "NBUK - i" arbitrary: i s)
  case 0
  then show ?case by (subst binit_buckets.simps) simp
next
  case (Suc d)
  then have i: "i < NBUK" and d: "d = NBUK - Suc i" by simp_all
  from i show ?case
    by (subst binit_buckets.simps) (simp add: Let_def Suc.hyps(1) [OF d] binit_bufs_ident)
qed

section \<open>The eviction scan as a fold over the chains\<close>

lemma chains_iff:
  "chains s cs \<longleftrightarrow> (\<forall>i<NBUK. is_chain (buf s) (next (head (buckets s i))) (cs i))"
  by (auto simp: chains_def list_all_iff)

lemma chains_cong: "buf s = buf s' \<Longrightarrow> buckets s = buckets s' \<Longrightarrow> chains s cs = chains s' cs"
  by (simp add: chains_def)

lemma is_chain_unique: "is_chain bs p xs \<Longrightarrow> is_chain bs p ys \<Longrightarrow> xs = ys"
proof (induction xs arbitrary: p ys)
  case Nil
  then show ?case by (cases ys) simp_all
next
  case (Cons n ns)
  then show ?case by (cases ys) auto
qed

lemma is_chain_append: "is_chain bs p (as @ cs) \<Longrightarrow> \<exists>q. is_chain bs q cs"
  by (induction as arbitrary: p) auto

lemma is_chain_distinct: "is_chain bs p xs \<Longrightarrow> distinct xs"
proof (induction xs arbitrary: p)
  case Nil
  then show ?case by simp
next
  case (Cons n ns)
  then have tl: "is_chain bs (next (bs ! n)) ns" and d: "distinct ns" by auto
  have "n \<notin> set ns"
  proof
    assume "n \<in> set ns"
    then obtain as cs where ns: "ns = as @ n # cs" by (auto simp: in_set_conv_decomp)
    with tl obtain q where q: "is_chain bs q (n # cs)" using is_chain_append by blast
    then have "is_chain bs (next (bs ! n)) cs" by simp
    from is_chain_unique [OF this tl] ns show False by simp
  qed
  with d show ?case by simp
qed

lemma is_chain_bound: "is_chain bs p xs \<Longrightarrow> set xs \<subseteq> {0..<length bs}"
  by (induction xs arbitrary: p) auto

lemma is_chain_length: assumes "is_chain bs p xs" shows "length xs \<le> length bs"
proof -
  from is_chain_distinct [OF assms] have "length xs = card (set xs)"
    by (simp add: distinct_card)
  also from is_chain_bound [OF assms] have "\<dots> \<le> card {0..<length bs}"
    by (intro card_mono) simp_all
  finally show ?thesis by simp
qed

lemma links_Cons: "links q (n # ns) = (q, n) # links (Buf n) ns"
  by (simp add: links_def)

lemma links_Nil: "links q [] = []"
  by (simp add: links_def)

lemma walk_pick:
  "is_chain (buf s) (next_of s q) ns \<Longrightarrow> length ns \<le> fuel \<Longrightarrow>
   \<exists>ib'. lru_walk fuel s q (m, ib, pl)
          = Inr (fst (pick (buf s) (links q ns) (m, pl)), ib', snd (pick (buf s) (links q ns) (m, pl)))"
proof (induction ns arbitrary: fuel q m ib pl)
  case Nil
  then show ?case by (simp add: lru_walk.simps links_Nil)
next
  case (Cons n ns)
  then obtain f where f: "fuel = Suc f" "length ns \<le> f" by (cases fuel) auto
  from Cons.prems have n: "next_of s q = Some n" "n < length (buf s)"
    and tl: "is_chain (buf s) (next_of s (Buf n)) ns" by simp_all
  show ?case
  proof (cases "refcnt (buf s ! n) = 0 \<and> m \<le> timestamp (buf s ! n)")
    case True
    from Cons.IH [OF tl f(2), of "timestamp (buf s ! n)" True "Some q"] n f True
    show ?thesis by (simp add: lru_walk.simps [of "Suc f"] links_Cons)
  next
    case False
    from Cons.IH [OF tl f(2), of m ib pl] n f False
    show ?thesis by (auto simp add: lru_walk.simps [of "Suc f"] links_Cons)
  qed
qed

lemma pick_append: "pick bs (xs @ ys) acc = pick bs ys (pick bs xs acc)"
proof (induction xs arbitrary: acc)
  case Nil
  then show ?case by simp
next
  case (Cons x xs)
  then show ?case by (cases x; cases acc) simp
qed

lemma all_links_step: "i < NBUK \<Longrightarrow> all_links cs i = links (Head i) (cs i) @ all_links cs (Suc i)"
  by (simp add: all_links_def upt_conv_Cons)

lemma all_links_done: "\<not> i < NBUK \<Longrightarrow> all_links cs i = []"
  by (simp add: all_links_def)

lemma scan_pick:
  "chains s cs \<Longrightarrow>
   \<exists>s' k'. lru_scan i s m k pl
      = Inr (s', fst (pick (buf s) (all_links cs i) (m, pl)), k',
             snd (pick (buf s) (all_links cs i) (m, pl)))"
proof (induction "NBUK - i" arbitrary: i s m k pl)
  case 0
  then show ?case by (simp add: lru_scan_done all_links_done)
next
  case (Suc d)
  then have i: "i < NBUK" and d: "d = NBUK - Suc i" by simp_all
  from Suc.prems i have ch: "is_chain (buf s) (next_of s (Head i)) (cs i)"
    by (simp add: chains_iff)
  let ?R = "pick (buf s) (links (Head i) (cs i)) (m, pl)"
  from walk_pick [OF ch is_chain_length [OF ch], of m False pl] obtain ib where
    w: "lru_walk (length (buf s)) s (Head i) (m, False, pl) = Inr (fst ?R, ib, snd ?R)"
    by blast
  have R: "pick (buf s) (all_links cs i) (m, pl) = pick (buf s) (all_links cs (Suc i)) (fst ?R, snd ?R)"
    using i by (simp add: all_links_step pick_append)
  show ?case
  proof (cases ib)
    case True
    let ?s = "if k \<noteq> - 1 then release (Bucket_lock (nat k)) (acquire (Bucket_lock i) s)
               else acquire (Bucket_lock i) s"
    have e: "buf ?s = buf s" "buckets ?s = buckets s" by simp_all
    with Suc.prems have "chains ?s cs" by (simp add: chains_cong [of ?s s])
    from Suc.hyps(1) [OF d this, of "fst ?R" "int i" "snd ?R"] i w True R e
    show ?thesis by (simp add: lru_scan_step)
  next
    case False
    let ?s = "release (Bucket_lock i) (acquire (Bucket_lock i) s)"
    have e: "buf ?s = buf s" "buckets ?s = buckets s" by simp_all
    with Suc.prems have "chains ?s cs" by (simp add: chains_cong [of ?s s])
    from Suc.hyps(1) [OF d this, of "fst ?R" k "snd ?R"] i w False R e
    show ?thesis by (simp add: lru_scan_step)
  qed
qed

lemma find_buf_cong:
  "buf s = buf s' \<Longrightarrow> find_buf fuel s dv bn b = find_buf fuel s' dv bn b"
proof (induction fuel arbitrary: b)
  case 0
  then show ?case by (cases b) (simp_all add: find_buf.simps(2))
next
  case (Suc fuel)
  then show ?case by (cases b) (simp_all add: find_buf.simps(2))
qed

lemma pick_snoc:
  "pick bs (xs @ [(q, n)]) acc =
     (if refcnt (bs ! n) = 0 \<and> fst (pick bs xs acc) \<le> timestamp (bs ! n)
      then (timestamp (bs ! n), Some q) else pick bs xs acc)"
  by (cases "pick bs xs acc") (simp add: pick_append)

lemma pick_spec:
  "(\<forall>j<length xs. free bs (snd (xs ! j)) \<longrightarrow>
       timestamp (bs ! snd (xs ! j)) \<le> fst (pick bs xs (0, None))) \<and>
   (if \<forall>j<length xs. \<not> free bs (snd (xs ! j)) then pick bs xs (0, None) = (0, None)
    else \<exists>j<length xs. snd (pick bs xs (0, None)) = Some (fst (xs ! j)) \<and>
           free bs (snd (xs ! j)) \<and>
           timestamp (bs ! snd (xs ! j)) = fst (pick bs xs (0, None)) \<and>
           (\<forall>j'<length xs. j < j' \<longrightarrow> free bs (snd (xs ! j')) \<longrightarrow>
               timestamp (bs ! snd (xs ! j')) < fst (pick bs xs (0, None))))"
  (is "?B xs \<and> ?S xs")
proof (induction xs rule: rev_induct)
  case Nil
  show ?case by simp
next
  case (snoc x xs)
  obtain q n where x: "x = (q, n)" by (cases x)
  let ?R = "pick bs xs (0, None)"
  let ?R' = "pick bs (xs @ [(q, n)]) (0, None)"
  from snoc have B: "?B xs" and S: "?S xs" by simp_all
  have old: "\<And>j. j < length xs \<Longrightarrow> (xs @ [(q, n)]) ! j = xs ! j" by (simp add: nth_append)
  have new: "(xs @ [(q, n)]) ! length xs = (q, n)" by simp
  have idx: "\<And>j. j < length (xs @ [(q, n)]) \<longleftrightarrow> j < length xs \<or> j = length xs" by auto
  have "?B (xs @ [(q, n)]) \<and> ?S (xs @ [(q, n)])"
  proof (cases "free bs n \<and> fst ?R \<le> timestamp (bs ! n)")
    case True
    then have R': "?R' = (timestamp (bs ! n), Some q)"
      by (simp add: pick_snoc free_def)
    have b: "?B (xs @ [(q, n)])"
    proof (intro allI impI)
      fix j assume j: "j < length (xs @ [(q, n)])" and f: "free bs (snd ((xs @ [(q, n)]) ! j))"
      show "timestamp (bs ! snd ((xs @ [(q, n)]) ! j)) \<le> fst ?R'"
      proof (cases "j < length xs")
        case True
        with f B have "timestamp (bs ! snd (xs ! j)) \<le> fst ?R" by (simp add: old)
        with \<open>free bs n \<and> fst ?R \<le> timestamp (bs ! n)\<close>
        have "timestamp (bs ! snd (xs ! j)) \<le> timestamp (bs ! n)" by (meson order_trans)
        with True show ?thesis
          by (simp add: R' old)
      next
        case False
        with j have "j = length xs" by simp
        then show ?thesis by (simp add: R')
      qed
    qed
    have ne: "\<not> (\<forall>j<length (xs @ [(q, n)]). \<not> free bs (snd ((xs @ [(q, n)]) ! j)))"
      using True new by (metis length_append_singleton lessI snd_conv)
    have "\<exists>j<length (xs @ [(q, n)]). snd ?R' = Some (fst ((xs @ [(q, n)]) ! j)) \<and>
           free bs (snd ((xs @ [(q, n)]) ! j)) \<and>
           timestamp (bs ! snd ((xs @ [(q, n)]) ! j)) = fst ?R' \<and>
           (\<forall>j'<length (xs @ [(q, n)]). j < j' \<longrightarrow> free bs (snd ((xs @ [(q, n)]) ! j')) \<longrightarrow>
               timestamp (bs ! snd ((xs @ [(q, n)]) ! j')) < fst ?R')"
      using True by (intro exI [of _ "length xs"]) (simp add: R')
    with b show ?thesis unfolding if_not_P [OF ne] by blast
  next
    case False
    then have R': "?R' = ?R" by (auto simp: pick_snoc free_def)
    have lt: "free bs n \<Longrightarrow> timestamp (bs ! n) < fst ?R" using False by auto
    have b: "?B (xs @ [(q, n)])"
    proof (intro allI impI)
      fix j assume j: "j < length (xs @ [(q, n)])" and f: "free bs (snd ((xs @ [(q, n)]) ! j))"
      show "timestamp (bs ! snd ((xs @ [(q, n)]) ! j)) \<le> fst ?R'"
      proof (cases "j < length xs")
        case True
        with f B show ?thesis by (simp add: R' old)
      next
        case False
        with j have "j = length xs" by simp
        with f lt show ?thesis by (simp add: R')
      qed
    qed
    show ?thesis
    proof (cases "\<forall>j<length xs. \<not> free bs (snd (xs ! j))")
      case True
      with S have R0: "?R = (0, None)" by simp
      have "\<not> free bs n"
      proof
        assume "free bs n"
        from lt [OF this] R0 show False by simp
      qed
      with True have "\<forall>j<length (xs @ [(q, n)]). \<not> free bs (snd ((xs @ [(q, n)]) ! j))"
        by (auto simp: nth_append)
      with b R0 R' show ?thesis by simp
    next
      case nf: False
      with S obtain j where j: "j < length xs" "snd ?R = Some (fst (xs ! j))"
        "free bs (snd (xs ! j))" "timestamp (bs ! snd (xs ! j)) = fst ?R"
        "\<forall>j'<length xs. j < j' \<longrightarrow> free bs (snd (xs ! j')) \<longrightarrow>
               timestamp (bs ! snd (xs ! j')) < fst ?R"
        by auto
      have later: "\<forall>j'<length (xs @ [(q, n)]). j < j' \<longrightarrow> free bs (snd ((xs @ [(q, n)]) ! j')) \<longrightarrow>
               timestamp (bs ! snd ((xs @ [(q, n)]) ! j')) < fst ?R'"
      proof (intro allI impI)
        fix j' assume a: "j' < length (xs @ [(q, n)])" "j < j'" "free bs (snd ((xs @ [(q, n)]) ! j'))"
        show "timestamp (bs ! snd ((xs @ [(q, n)]) ! j')) < fst ?R'"
        proof (cases "j' < length xs")
          case True
          with a j(5) show ?thesis by (simp add: R' old)
        next
          case False
          with a have "j' = length xs" by simp
          with a lt show ?thesis by (simp add: R')
        qed
      qed
      from nf have ne: "\<not> (\<forall>j<length (xs @ [(q, n)]). \<not> free bs (snd ((xs @ [(q, n)]) ! j)))"
        by (metis old idx)
      have "\<exists>j<length (xs @ [(q, n)]). snd ?R' = Some (fst ((xs @ [(q, n)]) ! j)) \<and>
           free bs (snd ((xs @ [(q, n)]) ! j)) \<and>
           timestamp (bs ! snd ((xs @ [(q, n)]) ! j)) = fst ?R' \<and>
           (\<forall>j'<length (xs @ [(q, n)]). j < j' \<longrightarrow> free bs (snd ((xs @ [(q, n)]) ! j')) \<longrightarrow>
               timestamp (bs ! snd ((xs @ [(q, n)]) ! j')) < fst ?R')"
        using j later by (intro exI [of _ j]) (simp add: R' old)
      with b show ?thesis unfolding if_not_P [OF ne] by blast
    qed
  qed
  then show ?case by (simp only: x)
qed

lemma map_snd_links: "map snd (links q ns) = ns"
  by (induction ns arbitrary: q) (simp_all add: links_Nil links_Cons)

lemma map_snd_all_links: "map snd (all_links cs 0) = scan_order cs"
  by (simp add: all_links_def scan_order_def map_concat comp_def map_snd_links)

lemma links_next:
  "is_chain (buf s) (next_of s q) ns \<Longrightarrow> (p, n) \<in> set (links q ns) \<Longrightarrow> next_of s p = Some n"
proof (induction ns arbitrary: q)
  case Nil
  then show ?case by (simp add: links_Nil)
next
  case (Cons a ns)
  from Cons.prems(1) have hd: "next_of s q = Some a"
    and tl: "is_chain (buf s) (next_of s (Buf a)) ns" by simp_all
  from Cons.prems(2) have "(p, n) = (q, a) \<or> (p, n) \<in> set (links (Buf a) ns)"
    by (simp add: links_Cons)
  then show ?case
  proof
    assume "(p, n) = (q, a)"
    with hd show ?thesis by simp
  next
    assume "(p, n) \<in> set (links (Buf a) ns)"
    from Cons.IH [OF tl this] show ?thesis .
  qed
qed

lemma all_links_next:
  assumes "chains s cs" and "(p, n) \<in> set (all_links cs 0)"
  shows "next_of s p = Some n"
proof -
  from assms(2) obtain i where i: "i < NBUK" "(p, n) \<in> set (links (Head i) (cs i))"
    by (auto simp: all_links_def)
  from assms(1) i(1) have "is_chain (buf s) (next_of s (Head i)) (cs i)"
    by (simp add: chains_iff)
  from links_next [OF this i(2)] show ?thesis .
qed

lemma select_lru_pick:
  assumes "chains s cs" and "\<exists>n\<in>set (scan_order cs). refcnt (buf s ! n) = 0"
  shows "\<exists>s1 k q j. select_lru s = Inr (s1, k, q, Some (scan_order cs ! j)) \<and>
           snd (pick (buf s) (all_links cs 0) (0, None)) = Some q \<and>
           next_of s q = Some (scan_order cs ! j) \<and>
           (q, scan_order cs ! j) \<in> set (all_links cs 0) \<and>
           j < length (scan_order cs) \<and> free (buf s) (scan_order cs ! j) \<and>
           (\<forall>j'<length (scan_order cs). free (buf s) (scan_order cs ! j') \<longrightarrow>
              timestamp (buf s ! (scan_order cs ! j')) \<le> timestamp (buf s ! (scan_order cs ! j))) \<and>
           (\<forall>j'<length (scan_order cs). j < j' \<longrightarrow> free (buf s) (scan_order cs ! j') \<longrightarrow>
              timestamp (buf s ! (scan_order cs ! j')) < timestamp (buf s ! (scan_order cs ! j)))"
proof -
  let ?xs = "all_links cs 0"
  let ?R = "pick (buf s) ?xs (0, None)"
  have len: "length ?xs = length (scan_order cs)"
    using map_snd_all_links [of cs] by (metis length_map)
  have nth: "\<And>j. j < length ?xs \<Longrightarrow> snd (?xs ! j) = scan_order cs ! j"
    using map_snd_all_links [of cs] by (metis nth_map)
  from assms(2) obtain j0 where "j0 < length (scan_order cs)" "free (buf s) (scan_order cs ! j0)"
    by (auto simp: in_set_conv_nth free_def)
  then have ne: "\<not> (\<forall>j<length ?xs. \<not> free (buf s) (snd (?xs ! j)))"
    using len nth by auto
  from pick_spec [of ?xs "buf s"] have
    B: "\<forall>j<length ?xs. free (buf s) (snd (?xs ! j)) \<longrightarrow>
          timestamp (buf s ! snd (?xs ! j)) \<le> fst ?R" and
    S: "\<exists>j<length ?xs. snd ?R = Some (fst (?xs ! j)) \<and> free (buf s) (snd (?xs ! j)) \<and>
           timestamp (buf s ! snd (?xs ! j)) = fst ?R \<and>
           (\<forall>j'<length ?xs. j < j' \<longrightarrow> free (buf s) (snd (?xs ! j')) \<longrightarrow>
               timestamp (buf s ! snd (?xs ! j')) < fst ?R)"
    unfolding if_not_P [OF ne] by blast+
  from S obtain j where j: "j < length ?xs" "snd ?R = Some (fst (?xs ! j))"
    "free (buf s) (snd (?xs ! j))" "timestamp (buf s ! snd (?xs ! j)) = fst ?R"
    "\<forall>j'<length ?xs. j < j' \<longrightarrow> free (buf s) (snd (?xs ! j')) \<longrightarrow>
               timestamp (buf s ! snd (?xs ! j')) < fst ?R"
    by blast
  from j(1) have "(fst (?xs ! j), snd (?xs ! j)) \<in> set ?xs" by simp
  from all_links_next [OF assms(1) this] nth [OF j(1)]
  have nx: "next_of s (fst (?xs ! j)) = Some (scan_order cs ! j)" by simp
  from scan_pick [OF assms(1), of 0 0 "- 1" None] obtain s1 k where
    sc: "lru_scan 0 s 0 (- 1) None = Inr (s1, fst ?R, k, snd ?R)" by blast
  have "cand_ok s None" by (simp add: cand_ok_def)
  from lru_scan_fields [OF sc this] have "buf s1 = buf s" "buckets s1 = buckets s" by simp_all
  then have "next_of s1 (fst (?xs ! j)) = next_of s (fst (?xs ! j))" by (rule next_of_cong)
  with sc j(2) nx have sel: "select_lru s = Inr (s1, k, fst (?xs ! j), Some (scan_order cs ! j))"
    by (simp add: select_lru_def)
  from B j(4) len nth have b: "\<forall>j'<length (scan_order cs). free (buf s) (scan_order cs ! j') \<longrightarrow>
              timestamp (buf s ! (scan_order cs ! j')) \<le> timestamp (buf s ! (scan_order cs ! j))"
    using j(1) by auto
  from j(5) j(4) len nth have l: "\<forall>j'<length (scan_order cs). j < j' \<longrightarrow>
              free (buf s) (scan_order cs ! j') \<longrightarrow>
              timestamp (buf s ! (scan_order cs ! j')) < timestamp (buf s ! (scan_order cs ! j))"
    using j(1) by auto
  from j(1) nth have "?xs ! j = (fst (?xs ! j), scan_order cs ! j)"
    by (metis prod.collapse)
  with j(1) have mem: "(fst (?xs ! j), scan_order cs ! j) \<in> set ?xs"
    by (metis nth_mem)
  from sel j(1,2,3) nx mem b l len nth show ?thesis by auto
qed

lemma select_lru_none:
  assumes "chains s cs" and "\<forall>n\<in>set (scan_order cs). refcnt (buf s ! n) \<noteq> 0"
  shows "select_lru s = Inl NullDeref"
proof -
  let ?xs = "all_links cs 0"
  let ?R = "pick (buf s) ?xs (0, None)"
  have len: "length ?xs = length (scan_order cs)"
    using map_snd_all_links [of cs] by (metis length_map)
  have nth: "\<And>j. j < length ?xs \<Longrightarrow> snd (?xs ! j) = scan_order cs ! j"
    using map_snd_all_links [of cs] by (metis nth_map)
  from assms(2) have "\<forall>j<length ?xs. \<not> free (buf s) (snd (?xs ! j))"
    using len nth by (simp add: free_def)
  with pick_spec [of ?xs "buf s"] have R: "?R = (0, None)" by simp
  from scan_pick [OF assms(1), of 0 0 "- 1" None] obtain s1 k where
    "lru_scan 0 s 0 (- 1) None = Inr (s1, fst ?R, k, snd ?R)" by blast
  with R show ?thesis by (simp add: select_lru_def)
qed

lemma bget_no_free_buf_null_deref:
  assumes "chains s cs" and "\<forall>n\<in>set (scan_order cs). refcnt (buf s ! n) \<noteq> 0"
    and "find_buf (length (buf s)) s dv bn (next (head (buckets s (hash dv bn)))) = Inr None"
  shows "bget s p dv bn = Inl NullDeref"
proof -
  let ?s1 = "acquire (Bucket_lock (hash dv bn)) s"
  let ?s2 = "release (Bucket_lock (hash dv bn)) ?s1"
  have "chains ?s2 cs" using assms(1) by (simp add: chains_cong [of ?s2 s])
  moreover have "\<forall>n\<in>set (scan_order cs). refcnt (buf ?s2 ! n) \<noteq> 0" using assms(2) by simp
  ultimately have "select_lru ?s2 = Inl NullDeref" by (rule select_lru_none)
  then have m: "bget_miss ?s2 p dv bn (hash dv bn) = Inl NullDeref"
    by (simp add: bget_miss_def)
  have "find_buf (length (buf ?s1)) ?s1 dv bn (next (head (buckets ?s1 (hash dv bn)))) = Inr None"
    using assms(3) by (simp add: find_buf_cong [of ?s1 s])
  with m show ?thesis by (simp add: bget_def Let_def)
qed


lemma bget_evicts:
  assumes "bget s p dv bn = Inr (s', r)"
  shows "(\<forall>j. ident s' j = ident s j) \<or>
         (\<exists>s0 s1 k q e. buf s0 = buf s \<and> buckets s0 = buckets s \<and>
            select_lru s0 = Inr (s1, k, q, Some e) \<and> (\<forall>j. j \<noteq> e \<longrightarrow> ident s' j = ident s j))"
proof -
  define s1 where "s1 = acquire (Bucket_lock (hash dv bn)) s"
  define s2 where "s2 = release (Bucket_lock (hash dv bn)) s1"
  from assms have
    "(\<exists>b. bget_found s1 p b [Bucket_lock (hash dv bn)] = Inr (s', r)) \<or>
     bget_miss s2 p dv bn (hash dv bn) = Inr (s', r)"
    by (auto simp: bget_def s1_def s2_def Let_def split: sum.splits option.splits)
  then show ?thesis
  proof
    assume "\<exists>b. bget_found s1 p b [Bucket_lock (hash dv bn)] = Inr (s', r)"
    then obtain b where "bget_found s1 p b [Bucket_lock (hash dv bn)] = Inr (s', r)" ..
    from bget_found_Inr [OF this] show ?thesis by (simp add: s1_def)
  next
    assume "bget_miss s2 p dv bn (hash dv bn) = Inr (s', r)"
    from bget_miss_Inr [OF this] obtain t k q e where
      "select_lru s2 = Inr (t, k, q, Some e)" "\<forall>j. j \<noteq> e \<longrightarrow> ident s' j = ident s2 j"
      by blast
    moreover have "buf s2 = buf s" "buckets s2 = buckets s" "\<And>j. ident s2 j = ident s j"
      by (simp_all add: s1_def s2_def)
    ultimately show ?thesis by auto
  qed
qed

section \<open>The chains after a miss\<close>

lemma separate_iff:
  "separate cs \<longleftrightarrow> (\<forall>i<NBUK. \<forall>j<NBUK. i \<noteq> j \<longrightarrow> set (cs i) \<inter> set (cs j) = {})"
  unfolding separate_def list_all_iff by (simp add: Ball_def) blast

lemma is_chain_path: "is_chain bs p ns = path bs p ns None"
  by (induction ns arbitrary: p) auto

lemma path_append: "path bs p (xs @ ys) q \<longleftrightarrow> (\<exists>r. path bs p xs r \<and> path bs r ys q)"
  by (induction xs arbitrary: p) auto

lemma path_frame:
  "(\<And>n. n \<in> set ns \<Longrightarrow> next (bs' ! n) = next (bs ! n)) \<Longrightarrow> length bs' = length bs \<Longrightarrow>
   path bs' p ns q = path bs p ns q"
  by (induction ns arbitrary: p) auto

lemma path_update_frame:
  assumes "a \<notin> set ns"
  shows "path (bs[a := b]) p ns q = path bs p ns q"
proof (rule path_frame)
  fix n
  assume "n \<in> set ns"
  with assms have "a \<noteq> n" by auto
  then show "next (bs[a := b] ! n) = next (bs ! n)" by simp
qed simp

lemma find_buf_chain:
  "is_chain (buf s) p ns \<Longrightarrow> length ns \<le> fuel \<Longrightarrow>
   find_buf fuel s dv bn p = Inr (List.find (matches s dv bn) ns)"
proof (induction ns arbitrary: p fuel)
  case Nil
  then show ?case by simp
next
  case (Cons n ns)
  then obtain f where f: "fuel = Suc f" "length ns \<le> f" by (cases fuel) auto
  from Cons.prems have n: "p = Some n" "n < length (buf s)"
    and tl: "is_chain (buf s) (next (buf s ! n)) ns" by simp_all
  from Cons.IH [OF tl f(2)] n f show ?case
    by (simp add: find_buf.simps(2) matches_def)
qed

lemma links_decomp:
  "(q, e) \<in> set (links p ns) \<Longrightarrow>
   \<exists>as bs. ns = as @ e # bs \<and> q = (if as = [] then p else Buf (last as))"
proof (induction ns arbitrary: p)
  case Nil
  then show ?case by (simp add: links_Nil)
next
  case (Cons n ns)
  from Cons.prems have "(q, e) = (p, n) \<or> (q, e) \<in> set (links (Buf n) ns)"
    by (simp add: links_Cons)
  then show ?case
  proof
    assume "(q, e) = (p, n)"
    then have "n # ns = [] @ e # ns \<and> q = (if [] = [] then p else Buf (last []))" by simp
    then show ?thesis by blast
  next
    assume "(q, e) \<in> set (links (Buf n) ns)"
    from Cons.IH [OF this] obtain as bs where
      "ns = as @ e # bs" "q = (if as = [] then Buf n else Buf (last as))" by blast
    then have "n # ns = (n # as) @ e # bs \<and> q = (if n # as = [] then p else Buf (last (n # as)))"
      by simp
    then show ?thesis by blast
  qed
qed

lemma chains_bucket: "chains s cs \<Longrightarrow> i < NBUK \<Longrightarrow> path (buf s) (next (head (buckets s i))) (cs i) None"
  by (simp add: chains_iff is_chain_path)

lemma unlink_chains:
  assumes ch: "chains s cs" and sep: "separate cs" and i: "i < NBUK"
    and ci: "cs i = as @ e # bs" and q: "q = (if as = [] then Head i else Buf (last as))"
  shows "chains (set_next q (next (buf s ! e)) s) (cs(i := as @ bs))"
proof -
  let ?s' = "set_next q (next (buf s ! e)) s"
  from chains_bucket [OF ch i] ci
  have pi: "path (buf s) (next (head (buckets s i))) (as @ e # bs) None" by simp
  from pi have "is_chain (buf s) (next (head (buckets s i))) (as @ e # bs)"
    by (simp add: is_chain_path)
  then have d: "distinct (as @ e # bs)" by (rule is_chain_distinct)
  show ?thesis
  proof (cases "as = []")
    case True
    with q have q': "q = Head i" by simp
    have b: "buf ?s' = buf s" by (simp add: q' set_next.simps)
    have h: "\<And>j. next (head (buckets ?s' j)) =
               (if j = i then next (buf s ! e) else next (head (buckets s j)))"
      by (simp add: q' set_next.simps)
    from pi True have t: "path (buf s) (next (buf s ! e)) bs None" by simp
    show ?thesis unfolding chains_iff
    proof (intro allI impI)
      fix j assume j: "j < NBUK"
      show "is_chain (buf ?s') (next (head (buckets ?s' j))) ((cs(i := as @ bs)) j)"
      proof (cases "j = i")
        case True
        with t \<open>as = []\<close> show ?thesis by (simp add: b h is_chain_path)
      next
        case False
        with chains_bucket [OF ch j] show ?thesis by (simp add: b h is_chain_path)
      qed
    qed
  next
    case False
    then obtain as' a where as: "as = as' @ [a]" by (metis rev_exhaust)
    with q have q': "q = Buf a" by simp
    let ?bs' = "(buf s)[a := (buf s ! a)\<lparr>next := next (buf s ! e)\<rparr>]"
    have b: "buf ?s' = ?bs'" by (simp add: q' set_next.simps)
    have h: "buckets ?s' = buckets s" by (simp add: q' set_next.simps)
    from pi as have "path (buf s) (next (head (buckets s i))) (as' @ a # e # bs) None" by simp
    then obtain r where r: "path (buf s) (next (head (buckets s i))) as' r"
      "path (buf s) r (a # e # bs) None"
      unfolding path_append by blast
    then have ra: "r = Some a" and a: "a < length (buf s)"
      and t: "path (buf s) (next (buf s ! e)) bs None" by simp_all
    from d as have na: "a \<notin> set as'" "a \<notin> set bs" by auto
    have p1: "path ?bs' (next (head (buckets s i))) as' (Some a)"
      using r(1) ra na(1) by (simp add: path_update_frame)
    have p2: "path ?bs' (next (buf s ! e)) bs None"
      using t na(2) by (simp add: path_update_frame)
    from a have nx: "next (?bs' ! a) = next (buf s ! e)" by simp
    have pi': "path ?bs' (next (head (buckets s i))) (as' @ a # bs) None"
      unfolding path_append using p1 p2 nx a by auto
    show ?thesis unfolding chains_iff
    proof (intro allI impI)
      fix j assume j: "j < NBUK"
      show "is_chain (buf ?s') (next (head (buckets ?s' j))) ((cs(i := as @ bs)) j)"
      proof (cases "j = i")
        case True
        with pi' as show ?thesis by (simp add: b h is_chain_path)
      next
        case False
        from ci as have "a \<in> set (cs i)" by simp
        with sep i j False have "a \<notin> set (cs j)" unfolding separate_iff by blast
        with chains_bucket [OF ch j] False show ?thesis
          by (simp add: b h is_chain_path path_update_frame)
      qed
    qed
  qed
qed

lemma link_chains:
  assumes ch: "chains s cs" and e: "e < length (buf s)" and ne: "\<forall>j<NBUK. e \<notin> set (cs j)"
    and k: "k < NBUK"
  shows "chains (set_next (Head k) (Some e) (set_next (Buf e) (next (head (buckets s k))) s))
           (cs(k := e # cs k))"
proof -
  let ?s' = "set_next (Head k) (Some e) (set_next (Buf e) (next (head (buckets s k))) s)"
  let ?bs' = "(buf s)[e := (buf s ! e)\<lparr>next := next (head (buckets s k))\<rparr>]"
  have b: "buf ?s' = ?bs'" by (simp add: set_next.simps)
  have h: "\<And>j. next (head (buckets ?s' j)) = (if j = k then Some e else next (head (buckets s j)))"
    by (simp add: set_next.simps)
  show ?thesis unfolding chains_iff
  proof (intro allI impI)
    fix j assume j: "j < NBUK"
    from ne j have "e \<notin> set (cs j)" by simp
    with chains_bucket [OF ch j] have pj: "path ?bs' (next (head (buckets s j))) (cs j) None"
      by (simp add: path_update_frame)
    show "is_chain (buf ?s') (next (head (buckets ?s' j))) ((cs(k := e # cs k)) j)"
    proof (cases "j = k")
      case True
      with pj e show ?thesis by (simp add: b h is_chain_path)
    next
      case False
      with pj show ?thesis by (simp add: b h is_chain_path)
    qed
  qed
qed

lemma hash_less: "hash dv bn < NBUK"
proof -
  have "unat ((dv * bn) mod 13) = unat (dv * bn) mod 13" by (simp add: unat_mod)
  then show ?thesis by (simp add: hash_def NBUK_def)
qed

lemma set_next_buf_field:
  "(\<And>x v. F (x\<lparr>next := v\<rparr>) = F x) \<Longrightarrow> F (buf (set_next q v s) ! n) = F (buf s ! n)"
  by (cases q) (simp_all add: set_next.simps nth_upd_field)

lemma chains_next_cong:
  assumes "length (buf s') = length (buf s)" and "\<And>n. next (buf s' ! n) = next (buf s ! n)"
    and "buckets s' = buckets s"
  shows "chains s' cs = chains s cs"
  unfolding chains_iff is_chain_path
  using assms path_frame [of _ "buf s'" "buf s"] by simp

lemma all_links_mem:
  "(q, e) \<in> set (all_links cs 0) \<Longrightarrow> \<exists>i<NBUK. (q, e) \<in> set (links (Head i) (cs i))"
  by (auto simp: all_links_def)

lemma bget_found_returns:
  assumes "\<not> locked (lock (buf s ! b))" and "b < length (buf s)"
  shows "\<exists>s'. bget_found s p b lks = Inr (s', b) \<and>
           buf s' = (buf s)[b := (buf s ! b)\<lparr>refcnt := refcnt (buf s ! b) + 1,
                                            lock := \<lparr>locked = True, pid = p\<rparr>\<rparr>] \<and>
           buckets s' = buckets s"
  using assms by (simp add: bget_found_def acquiresleep_def Let_def)

lemma install_returns:
  assumes "\<not> locked (lock (buf s ! l))" and "l < length (buf s)"
  shows "\<exists>s'. install s p dv bn buk_id l = Inr (s', l) \<and>
           buf s' = (buf s)[l := (buf s ! l)\<lparr>dev := dv, blockno := bn, valid := False, refcnt := 1,
                                            lock := \<lparr>locked = True, pid = p\<rparr>\<rparr>] \<and>
           buckets s' = buckets s"
  using assms by (simp add: install_def acquiresleep_def Let_def)

lemma nth_update_field_eq: "F b = F (xs ! j) \<Longrightarrow> F ((xs[j := b]) ! n) = F (xs ! n)"
  by (cases "j < length xs"; cases "j = n") (simp_all add: list_update_beyond)

lemma separate_shrink:
  assumes "separate cs" and "\<And>j. set (cs' j) \<subseteq> set (cs j)"
  shows "separate cs'"
  using assms unfolding separate_iff by blast

lemma bget_miss_returns_selected:
  assumes ch: "chains s cs" and sep: "separate cs"
    and fr: "\<exists>n\<in>set (scan_order cs). refcnt (buf s ! n) = 0"
    and unl: "\<forall>n\<in>set (scan_order cs). refcnt (buf s ! n) = 0 \<longrightarrow> \<not> locked (lock (buf s ! n))"
    and miss: "find_buf (length (buf s)) s dv bn (next (head (buckets s (hash dv bn)))) = Inr None"
  shows "\<exists>s1 k q e s' cs'. select_lru s = Inr (s1, k, q, Some e) \<and>
           bget s p dv bn = Inr (s', e) \<and>
           ident s' e = (dv, bn) \<and> refcnt (buf s' ! e) = 1 \<and>
           holdingsleep (lock (buf s' ! e)) p \<and>
           (\<forall>n. n \<noteq> e \<longrightarrow> ident s' n = ident s n \<and> refcnt (buf s' ! n) = refcnt (buf s ! n)) \<and>
           chains s' cs' \<and> separate cs'"
proof -
  let ?buk = "hash dv bn"
  define t where "t = release (Bucket_lock ?buk) (acquire (Bucket_lock ?buk) s)"
  have tb: "buf t = buf s" "buckets t = buckets s" by (simp_all add: t_def)
  have bg: "bget s p dv bn = bget_miss t p dv bn ?buk"
    using miss
    by (simp add: bget_def Let_def t_def find_buf_cong [of "acquire (Bucket_lock ?buk) s" s])
  from select_lru_pick [OF ch fr] obtain s1 k q j where
    sel_s: "select_lru s = Inr (s1, k, q, Some (scan_order cs ! j))" and
    pq: "snd (pick (buf s) (all_links cs 0) (0, None)) = Some q" and
    nx: "next_of s q = Some (scan_order cs ! j)" and
    mem: "(q, scan_order cs ! j) \<in> set (all_links cs 0)" and
    j: "j < length (scan_order cs)" and fj: "free (buf s) (scan_order cs ! j)"
    by blast
  define e where "e = scan_order cs ! j"
  have cht: "chains t cs" using ch tb by (simp add: chains_cong [of t s])
  have frt: "\<exists>n\<in>set (scan_order cs). refcnt (buf t ! n) = 0" using fr tb by simp
  from select_lru_pick [OF cht frt] obtain t1 k' q' j' where
    sel_t: "select_lru t = Inr (t1, k', q', Some (scan_order cs ! j'))" and
    pq': "snd (pick (buf t) (all_links cs 0) (0, None)) = Some q'" and
    nx': "next_of t q' = Some (scan_order cs ! j')"
    by blast
  from pq pq' tb have qq: "q' = q" by simp
  from tb have "next_of t q = next_of s q" by (rule next_of_cong)
  with nx nx' qq have "scan_order cs ! j' = e" by (simp add: e_def)
  with sel_t qq have sel_t': "select_lru t = Inr (t1, k', q, Some e)" by simp
  from select_lru_Inr [OF sel_t'] tb have
    e_lt: "e < length (buf s)" and e0: "refcnt (buf s ! e) = 0" and
    t1b: "buf t1 = buf s" "buckets t1 = buckets s"
    by simp_all
  from j have e_in: "e \<in> set (scan_order cs)" by (simp add: e_def)
  with unl e0 have unl_e: "\<not> locked (lock (buf s ! e))" by blast
  from all_links_mem [OF mem] obtain i where
    i: "i < NBUK" "(q, e) \<in> set (links (Head i) (cs i))" by (auto simp: e_def)
  from links_decomp [OF i(2)] obtain as bs where
    ci: "cs i = as @ e # bs" and qd: "q = (if as = [] then Head i else Buf (last as))" by blast
  define u where "u = set_next q (next (buf t1 ! e)) t1"
  define t2 where "t2 = release (Bucket_lock (nat k')) (log (Unlink e (nat k')) u)"
  have un: "unlink_lru t1 k' q (Some e) = Inr t2"
    using e_lt t1b by (simp add: unlink_lru_def t2_def u_def)
  define cs1 where "cs1 = cs(i := as @ bs)"
  have ch1: "chains t1 cs" using ch t1b by (simp add: chains_cong [of t1 s])
  have chu: "chains u cs1"
    using unlink_chains [OF ch1 sep i(1) ci qd] by (simp add: u_def cs1_def)
  have "chains t2 cs1 = chains u cs1" by (rule chains_cong) (simp_all add: t2_def)
  with chu have ch2: "chains t2 cs1" by simp
  from ch i(1) have "is_chain (buf s) (next (head (buckets s i))) (cs i)" by (simp add: chains_iff)
  then have d: "distinct (cs i)" by (rule is_chain_distinct)
  have sub1: "\<And>j. set (cs1 j) \<subseteq> set (cs j)" using ci by (auto simp: cs1_def)
  have sep1: "separate cs1" using sep sub1 by (rule separate_shrink)
  have ne1: "\<forall>j<NBUK. e \<notin> set (cs1 j)"
  proof (intro allI impI)
    fix j assume j: "j < NBUK"
    show "e \<notin> set (cs1 j)"
    proof (cases "j = i")
      case True
      with d ci show ?thesis by (simp add: cs1_def)
    next
      case False
      from ci have "e \<in> set (cs i)" by simp
      with sep i(1) j False have "e \<notin> set (cs j)" unfolding separate_iff by blast
      with False show ?thesis by (simp add: cs1_def)
    qed
  qed
  define t3 where "t3 = acquire (Bucket_lock ?buk) (acquire Bcache_lock t2)"
  define v where
    "v = set_next (Head ?buk) (Some e) (set_next (Buf e) (next (head (buckets t3 ?buk))) t3)"
  define t4 where "t4 = log (Link e ?buk) v"
  have l4: "link_lru t3 ?buk (Some e) = t4" by (simp add: link_lru_def t4_def v_def)
  define cs2 where "cs2 = cs1(?buk := e # cs1 ?buk)"
  have "chains t3 cs1 = chains t2 cs1" by (rule chains_cong) (simp_all add: t3_def)
  with ch2 have ch3: "chains t3 cs1" by simp
  have len3: "length (buf t3) = length (buf s)"
    using t1b by (simp add: t3_def t2_def u_def)
  with e_lt have e_lt3: "e < length (buf t3)" by simp
  have chv: "chains v cs2"
    using link_chains [OF ch3 e_lt3 ne1 hash_less] by (simp add: v_def cs2_def)
  have "chains t4 cs2 = chains v cs2" by (rule chains_cong) (simp_all add: t4_def)
  with chv have ch4: "chains t4 cs2" by simp
  have sep2: "separate cs2"
    unfolding separate_iff
  proof (intro allI impI)
    fix a b assume ab: "a < NBUK" "b < NBUK" "a \<noteq> b"
    from sep1 ab have "set (cs1 a) \<inter> set (cs1 b) = {}" unfolding separate_iff by blast
    with ne1 ab show "set (cs2 a) \<inter> set (cs2 b) = {}" by (auto simp: cs2_def)
  qed
  have len4: "length (buf t4) = length (buf s)"
    using len3 by (simp add: t4_def v_def)
  have id4: "\<And>n. ident t4 n = ident s n"
    using t1b by (simp add: t4_def v_def t3_def t2_def u_def ident_buf_eq [of t1 s])
  have rc4: "\<And>n. refcnt (buf t4 ! n) = refcnt (buf s ! n)"
    using t1b by (simp add: t4_def v_def t3_def t2_def u_def)
  have lk4: "\<And>n. lock (buf t4 ! n) = lock (buf s ! n)"
    using t1b by (simp add: t4_def v_def t3_def t2_def u_def set_next_buf_field [where F = lock])
  have m4: "matches t4 dv bn = matches s dv bn"
    using id4 by (auto simp: matches_def ident_def fun_eq_iff)
  from ch4 hash_less have c4: "is_chain (buf t4) (next (head (buckets t4 ?buk))) (cs2 ?buk)"
    by (simp add: chains_iff)
  from find_buf_chain [OF c4 is_chain_length [OF c4]] have
    f4: "find_buf (length (buf t4)) t4 dv bn (next (head (buckets t4 ?buk)))
           = Inr (List.find (matches s dv bn) (e # cs1 ?buk))"
    by (simp add: m4 cs2_def)
  from ch hash_less have c0: "is_chain (buf s) (next (head (buckets s ?buk))) (cs ?buk)"
    by (simp add: chains_iff)
  from find_buf_chain [OF c0 is_chain_length [OF c0]] miss
  have "List.find (matches s dv bn) (cs ?buk) = None" by simp
  then have "\<forall>n\<in>set (cs ?buk). \<not> matches s dv bn n" by (simp add: find_None_iff)
  with sub1 have "\<forall>n\<in>set (cs1 ?buk). \<not> matches s dv bn n" by blast
  then have f1: "List.find (matches s dv bn) (cs1 ?buk) = None" by (simp add: find_None_iff)
  have bm: "bget_miss t p dv bn ?buk =
     (if matches s dv bn e then bget_found t4 p e [Bucket_lock ?buk, Bcache_lock]
      else install t4 p dv bn ?buk e)"
    using sel_t' un l4 f4 f1 by (simp add: bget_miss_def t3_def Let_def)
  from unl_e lk4 have u4: "\<not> locked (lock (buf t4 ! e))" by simp
  from e_lt len4 have e4: "e < length (buf t4)" by simp
  have "\<exists>s'. bget s p dv bn = Inr (s', e) \<and>
           ident s' e = (dv, bn) \<and> refcnt (buf s' ! e) = 1 \<and>
           holdingsleep (lock (buf s' ! e)) p \<and>
           (\<forall>n. n \<noteq> e \<longrightarrow> ident s' n = ident s n \<and> refcnt (buf s' ! n) = refcnt (buf s ! n)) \<and>
           chains s' cs2"
  proof (cases "matches s dv bn e")
    case True
    from bget_found_returns [OF u4 e4] obtain s' where
      r: "bget_found t4 p e [Bucket_lock ?buk, Bcache_lock] = Inr (s', e)" and
      b: "buf s' = (buf t4)[e := (buf t4 ! e)\<lparr>refcnt := refcnt (buf t4 ! e) + 1,
                                            lock := \<lparr>locked = True, pid = p\<rparr>\<rparr>]" and
      h: "buckets s' = buckets t4"
      by blast
    from True id4 have ie: "ident t4 e = (dv, bn)" by (simp add: matches_def ident_def)
    have "chains s' cs2 = chains t4 cs2"
      by (rule chains_next_cong) (simp_all add: b h nth_update_field_eq)
    with ch4 have c: "chains s' cs2" by simp
    from ie e4 have i1: "ident s' e = (dv, bn)" by (simp add: ident_def b)
    from e4 e0 rc4 have i2: "refcnt (buf s' ! e) = 1" by (simp add: b)
    from e4 have i3: "holdingsleep (lock (buf s' ! e)) p" by (simp add: b holdingsleep_def)
    have i4: "\<forall>n. n \<noteq> e \<longrightarrow> ident s' n = ident s n \<and> refcnt (buf s' ! n) = refcnt (buf s ! n)"
      using id4 rc4 by (simp add: ident_def b)
    from bg bm True r i1 i2 i3 i4 c show ?thesis by simp
  next
    case False
    from install_returns [OF u4 e4] obtain s' where
      r: "install t4 p dv bn ?buk e = Inr (s', e)" and
      b: "buf s' = (buf t4)[e := (buf t4 ! e)\<lparr>dev := dv, blockno := bn, valid := False,
                                refcnt := 1, lock := \<lparr>locked = True, pid = p\<rparr>\<rparr>]" and
      h: "buckets s' = buckets t4"
      by blast
    have "chains s' cs2 = chains t4 cs2"
      by (rule chains_next_cong) (simp_all add: b h nth_update_field_eq)
    with ch4 have c: "chains s' cs2" by simp
    from e4 have i1: "ident s' e = (dv, bn)" by (simp add: ident_def b)
    from e4 have i2: "refcnt (buf s' ! e) = 1" by (simp add: b)
    from e4 have i3: "holdingsleep (lock (buf s' ! e)) p" by (simp add: b holdingsleep_def)
    have i4: "\<forall>n. n \<noteq> e \<longrightarrow> ident s' n = ident s n \<and> refcnt (buf s' ! n) = refcnt (buf s ! n)"
      using id4 rc4 by (simp add: ident_def b)
    from bg bm False r i1 i2 i3 i4 c show ?thesis by simp
  qed
  with sel_s sep2 show ?thesis unfolding e_def by blast
qed


section \<open>The ways bget can fail\<close>

lemma find_buf_not_panic: "find_buf fuel s dv bn b \<noteq> Inl (Panic m)"
proof (induction fuel arbitrary: b)
  case 0
  then show ?case by (cases b) (simp_all add: find_buf.simps(2))
next
  case (Suc fuel)
  then show ?case by (cases b) (simp_all add: find_buf.simps(2))
qed

lemma lru_walk_not_panic: "lru_walk fuel s q acc \<noteq> Inl (Panic m)"
proof (induction fuel arbitrary: q acc)
  case 0
  then show ?case
    by (cases acc) (simp add: lru_walk.simps Let_def split: option.splits)
next
  case (Suc fuel)
  then show ?case
    by (cases acc) (simp add: lru_walk.simps Let_def split: option.splits)
qed

lemma lru_scan_not_panic: "lru_scan i s mt k pl \<noteq> Inl (Panic m)"
proof (induction "NBUK - i" arbitrary: i s mt k pl)
  case 0
  then show ?case by (simp add: lru_scan_done)
next
  case (Suc d)
  then have i: "i < NBUK" and d: "d = NBUK - Suc i" by simp_all
  show ?case
  proof (cases "lru_walk (length (buf s)) s (Head i) (mt, False, pl)")
    case (Inl e)
    with lru_walk_not_panic [of "length (buf s)" s "Head i" "(mt, False, pl)" m] i
    show ?thesis by (simp add: lru_scan_step)
  next
    case (Inr r)
    obtain m1 ib pl1 where r: "r = (m1, ib, pl1)" by (cases r)
    from Suc.hyps(1) [OF d] Inr r i show ?thesis by (simp add: lru_scan_step)
  qed
qed

lemma select_lru_not_panic: "select_lru s \<noteq> Inl (Panic m)"
  using lru_scan_not_panic [of 0 s 0 "- 1" None m]
  by (auto simp: select_lru_def split: sum.splits option.splits)

lemma bget_found_not_panic: "bget_found s p b lks \<noteq> Inl (Panic m)"
  by (simp add: bget_found_def acquiresleep_def Let_def)

lemma install_not_panic: "install s p dv bn buk_id l \<noteq> Inl (Panic m)"
  by (simp add: install_def acquiresleep_def Let_def)

lemma unlink_lru_not_panic: "unlink_lru s k q lb \<noteq> Inl (Panic m)"
  by (simp add: unlink_lru_def split: option.splits)

lemma bget_miss_not_panic: "bget_miss s p dv bn buk_id \<noteq> Inl (Panic m)"
proof (cases "select_lru s")
  case (Inl e)
  with select_lru_not_panic [of s m] show ?thesis by (simp add: bget_miss_def)
next
  case (Inr r)
  obtain s1 k q lb where r: "r = (s1, k, q, lb)" by (cases r)
  from select_lru_Inr [OF Inr [unfolded r]] obtain e where lb: "lb = Some e" by blast
  show ?thesis
  proof (cases "unlink_lru s1 k q (Some e)")
    case (Inl f)
    with unlink_lru_not_panic [of s1 k q "Some e" m] Inr r lb show ?thesis
      by (simp add: bget_miss_def)
  next
    case u: (Inr s2)
    with Inr r lb show ?thesis
      using find_buf_not_panic bget_found_not_panic install_not_panic
      by (auto simp: bget_miss_def Let_def split: sum.splits option.splits)
  qed
qed

lemma bget_never_panics: "bget s p dv bn \<noteq> Inl (Panic m)"
  using find_buf_not_panic bget_found_not_panic bget_miss_not_panic
  by (auto simp: bget_def Let_def split: sum.splits option.splits)

lemma bread_never_panics: "bread s p dv bn \<noteq> Inl (Panic m)"
  using bget_never_panics [of s p dv bn m]
  by (auto simp: bread_def split: sum.splits prod.splits)

lemma bget_outcome:
  assumes ch: "chains s cs" and sep: "separate cs"
    and unl: "\<forall>n\<in>set (scan_order cs). refcnt (buf s ! n) = 0 \<longrightarrow> \<not> locked (lock (buf s ! n))"
  shows "(bget s p dv bn = Inl NullDeref \<longleftrightarrow>
            find_buf (length (buf s)) s dv bn (next (head (buckets s (hash dv bn)))) = Inr None \<and>
            (\<forall>n\<in>set (scan_order cs). refcnt (buf s ! n) \<noteq> 0)) \<and>
         (bget s p dv bn = Inl NullDeref \<or> bget s p dv bn = Inl Blocked \<or>
            (\<exists>s' r. bget s p dv bn = Inr (s', r)))"
proof -
  let ?buk = "hash dv bn"
  let ?s1 = "acquire (Bucket_lock ?buk) s"
  from ch hash_less have c0: "is_chain (buf s) (next (head (buckets s ?buk))) (cs ?buk)"
    by (simp add: chains_iff)
  note f0 = find_buf_chain [OF c0 is_chain_length [OF c0], of dv bn]
  have f1: "find_buf (length (buf ?s1)) ?s1 dv bn (next (head (buckets ?s1 ?buk)))
              = Inr (List.find (matches s dv bn) (cs ?buk))"
    using f0 by (simp add: find_buf_cong [of ?s1 s])
  show ?thesis
  proof (cases "List.find (matches s dv bn) (cs ?buk)")
    case (Some b)
    with f1 have g: "bget s p dv bn = bget_found ?s1 p b [Bucket_lock ?buk]"
      by (simp add: bget_def Let_def)
    have "bget_found ?s1 p b [Bucket_lock ?buk] = Inl Blocked \<or>
          (\<exists>s' r. bget_found ?s1 p b [Bucket_lock ?buk] = Inr (s', r))"
      by (simp add: bget_found_def acquiresleep_def Let_def)
    with g f0 Some show ?thesis by auto
  next
    case None
    with f0 have miss: "find_buf (length (buf s)) s dv bn (next (head (buckets s ?buk))) = Inr None"
      by simp
    show ?thesis
    proof (cases "\<exists>n\<in>set (scan_order cs). refcnt (buf s ! n) = 0")
      case True
      from bget_miss_returns_selected [OF ch sep True unl miss, of p] obtain s' e where
        "bget s p dv bn = Inr (s', e)" by blast
      with True show ?thesis by auto
    next
      case False
      then have "\<forall>n\<in>set (scan_order cs). refcnt (buf s ! n) \<noteq> 0" by simp
      from bget_no_free_buf_null_deref [OF ch this miss, of p] this miss
      show ?thesis by simp
    qed
  qed
qed


section \<open>Where a Buf changes bucket\<close>

lemma lru_walk_link:
  "is_chain (buf s) (next_of s q) ns \<Longrightarrow> set (links q ns) \<subseteq> S \<Longrightarrow>
   lru_walk fuel s q (m, ib, pl) = Inr (m', ib', pl') \<Longrightarrow>
   (ib \<longrightarrow> (\<exists>q' e. pl = Some q' \<and> (q', e) \<in> S)) \<Longrightarrow>
   (ib' \<longrightarrow> (\<exists>q' e. pl' = Some q' \<and> (q', e) \<in> S)) \<and> (\<not> ib' \<longrightarrow> pl' = pl) \<and> (ib \<longrightarrow> ib')"
proof (induction ns arbitrary: fuel q m ib pl)
  case Nil
  then show ?case by (simp add: lru_walk.simps)
next
  case (Cons n ns)
  from Cons.prems(1) have n: "next_of s q = Some n" "n < length (buf s)"
    and tl: "is_chain (buf s) (next_of s (Buf n)) ns" by simp_all
  from Cons.prems(2) have hd: "(q, n) \<in> S" and sub: "set (links (Buf n) ns) \<subseteq> S"
    by (simp_all add: links_Cons)
  from Cons.prems(3) n obtain f where f: "fuel = Suc f"
    by (cases fuel) (simp_all add: lru_walk.simps Let_def)
  show ?case
  proof (cases "refcnt (buf s ! n) = 0 \<and> m \<le> timestamp (buf s ! n)")
    case True
    with Cons.prems(3) n f
    have w: "lru_walk f s (Buf n) (timestamp (buf s ! n), True, Some q) = Inr (m', ib', pl')"
      by (simp add: lru_walk.simps [of "Suc f"])
    from hd have "True \<longrightarrow> (\<exists>q' e. Some q = Some q' \<and> (q', e) \<in> S)" by blast
    from Cons.IH [OF tl sub w this] show ?thesis by simp
  next
    case False
    with Cons.prems(3) n f
    have w: "lru_walk f s (Buf n) (m, ib, pl) = Inr (m', ib', pl')"
      by (auto simp add: lru_walk.simps [of "Suc f"])
    from Cons.IH [OF tl sub w Cons.prems(4)] show ?thesis .
  qed
qed

lemma lru_scan_track:
  "chains s cs \<Longrightarrow> lru_scan i s m k pl = Inr (s', m', k', pl') \<Longrightarrow>
   - 1 \<le> k \<Longrightarrow> k < int i \<Longrightarrow> i \<le> NBUK \<Longrightarrow>
   (pl \<noteq> None \<longrightarrow> 0 \<le> k \<and> holding (trace s) (Bucket_lock (nat k)) \<and>
      (\<exists>q e. pl = Some q \<and> (q, e) \<in> set (links (Head (nat k)) (cs (nat k))))) \<Longrightarrow>
   (pl' \<noteq> None \<longrightarrow> 0 \<le> k' \<and> nat k' < NBUK \<and> holding (trace s') (Bucket_lock (nat k')) \<and>
      (\<exists>q e. pl' = Some q \<and> (q, e) \<in> set (links (Head (nat k')) (cs (nat k'))))) \<and>
   move_points (trace s') = move_points (trace s) \<and>
   holding (trace s') Bcache_lock = holding (trace s) Bcache_lock"
proof (induction "NBUK - i" arbitrary: i s m k pl)
  case 0
  then have "i = NBUK" by simp
  with 0 show ?case by (auto simp: lru_scan_done)
next
  case (Suc d)
  then have i: "i < NBUK" and d: "d = NBUK - Suc i" by simp_all
  from Suc.prems(1) i have ch: "is_chain (buf s) (next_of s (Head i)) (cs i)"
    by (simp add: chains_iff)
  from Suc.prems(2) i obtain m1 ib pl1 where
    w: "lru_walk (length (buf s)) s (Head i) (m, False, pl) = Inr (m1, ib, pl1)"
    by (auto simp: lru_scan_step split: sum.splits)
  from lru_walk_link [OF ch subset_refl w] have
    b1: "ib \<longrightarrow> (\<exists>q' e. pl1 = Some q' \<and> (q', e) \<in> set (links (Head i) (cs i)))" and
    b2: "\<not> ib \<longrightarrow> pl1 = pl"
    by simp_all
  show ?case
  proof (cases ib)
    case True
    let ?s = "if k \<noteq> - 1 then release (Bucket_lock (nat k)) (acquire (Bucket_lock i) s)
               else acquire (Bucket_lock i) s"
    from Suc.prems(2) i w True have r: "lru_scan (Suc i) ?s m1 (int i) pl1 = Inr (s', m', k', pl')"
      by (simp add: lru_scan_step)
    have "chains ?s cs = chains s cs" by (rule chains_cong) simp_all
    with Suc.prems(1) have c: "chains ?s cs" by simp
    from Suc.prems(3,4) have ne: "k \<noteq> - 1 \<longrightarrow> nat k \<noteq> i" by auto
    then have h: "holding (trace ?s) (Bucket_lock i)" by simp
    from True b1 h have inv: "pl1 \<noteq> None \<longrightarrow> 0 \<le> int i \<and>
        holding (trace ?s) (Bucket_lock (nat (int i))) \<and>
        (\<exists>q e. pl1 = Some q \<and> (q, e) \<in> set (links (Head (nat (int i))) (cs (nat (int i)))))"
      by simp
    have t: "move_points (trace ?s) = move_points (trace s)"
      "holding (trace ?s) Bcache_lock = holding (trace s) Bcache_lock" by simp_all
    from i have "Suc i \<le> NBUK" by simp
    from Suc.hyps(1) [OF d c r _ _ this inv] t show ?thesis by simp
  next
    case False
    let ?s = "release (Bucket_lock i) (acquire (Bucket_lock i) s)"
    from Suc.prems(2) i w False have r: "lru_scan (Suc i) ?s m1 k pl1 = Inr (s', m', k', pl')"
      by (simp add: lru_scan_step)
    have "chains ?s cs = chains s cs" by (rule chains_cong) simp_all
    with Suc.prems(1) have c: "chains ?s cs" by simp
    from False b2 have p: "pl1 = pl" by simp
    from Suc.prems(4,6) p have inv: "pl1 \<noteq> None \<longrightarrow> 0 \<le> k \<and>
        holding (trace ?s) (Bucket_lock (nat k)) \<and>
        (\<exists>q e. pl1 = Some q \<and> (q, e) \<in> set (links (Head (nat k)) (cs (nat k))))"
      by auto
    have t: "move_points (trace ?s) = move_points (trace s)"
      "holding (trace ?s) Bcache_lock = holding (trace s) Bcache_lock" by simp_all
    from i have le: "Suc i \<le> NBUK" by simp
    from Suc.prems(4) have "k < int (Suc i)" by simp
    from Suc.hyps(1) [OF d c r Suc.prems(3) this le inv] t show ?thesis by simp
  qed
qed

lemma select_lru_track:
  assumes "chains s cs" and "select_lru s = Inr (s1, k, q, lb)"
  shows "0 \<le> k \<and> nat k < NBUK \<and> holding (trace s1) (Bucket_lock (nat k)) \<and>
         (\<exists>e. lb = Some e \<and> (q, e) \<in> set (links (Head (nat k)) (cs (nat k)))) \<and>
         move_points (trace s1) = move_points (trace s) \<and>
         holding (trace s1) Bcache_lock = holding (trace s) Bcache_lock"
proof -
  from assms(2) obtain m where
    sc: "lru_scan 0 s 0 (- 1) None = Inr (s1, m, k, Some q)" and lb: "lb = next_of s1 q"
    by (auto simp: select_lru_def split: sum.splits option.splits)
  from lru_scan_track [OF assms(1) sc] have
    k: "0 \<le> k" "nat k < NBUK" "holding (trace s1) (Bucket_lock (nat k))" and
    e: "\<exists>e. (q, e) \<in> set (links (Head (nat k)) (cs (nat k)))" and
    t: "move_points (trace s1) = move_points (trace s)"
       "holding (trace s1) Bcache_lock = holding (trace s) Bcache_lock"
    by simp_all
  from e obtain e where mem: "(q, e) \<in> set (links (Head (nat k)) (cs (nat k)))" ..
  from assms(1) k(2) have "is_chain (buf s) (next_of s (Head (nat k))) (cs (nat k))"
    by (simp add: chains_iff)
  from links_next [OF this mem] have nx: "next_of s q = Some e" .
  have "cand_ok s None" by (simp add: cand_ok_def)
  from lru_scan_fields [OF sc this] have "buf s1 = buf s" "buckets s1 = buckets s" by simp_all
  then have "next_of s1 q = next_of s q" by (rule next_of_cong)
  with nx lb have "lb = Some e" by simp
  with k mem t show ?thesis by blast
qed

lemma path_frame_bounded:
  "length bs' = length bs \<Longrightarrow> (\<And>n. n < length bs \<Longrightarrow> next (bs' ! n) = next (bs ! n)) \<Longrightarrow>
   path bs' p ns q = path bs p ns q"
  by (induction ns arbitrary: p) auto

lemma chains_map_next:
  assumes "buckets s' = buckets s" and "map next (buf s') = map next (buf s)"
  shows "chains s' cs = chains s cs"
proof -
  from assms(2) have l: "length (buf s') = length (buf s)" by (metis length_map)
  from assms(2) have "\<And>n. n < length (buf s) \<Longrightarrow> next (buf s' ! n) = next (buf s ! n)"
    by (metis l nth_map)
  with l assms(1) show ?thesis
    unfolding chains_iff is_chain_path
    using path_frame_bounded [of "buf s'" "buf s"] by simp
qed

lemma move_points_fold_release [simp]:
  "move_points (trace (fold release lks s)) = move_points (trace s)"
  by (induction lks arbitrary: s) simp_all

lemma map_next_update:
  "next x = next (xs ! j) \<Longrightarrow> map next (xs[j := x]) = map next xs"
  by (cases "j < length xs") (simp_all add: map_update list_update_same_conv list_update_beyond)

lemma upd_buf_map_next:
  "(\<And>x. next (f x) = next x) \<Longrightarrow> map next (buf (upd_buf n f s)) = map next (buf s)"
  by (simp add: map_next_update)

lemma acquiresleep_moves:
  assumes "acquiresleep s p n = Inr s'"
  shows "move_points (trace s') = move_points (trace s) \<and> buckets s' = buckets s \<and>
         map next (buf s') = map next (buf s)"
proof -
  from assms have
    "s' = log (AcquireSleep n) (upd_buf n (\<lambda>b. b\<lparr>lock := \<lparr>locked = True, pid = p\<rparr>\<rparr>) s)"
    by (simp add: acquiresleep_def split: if_splits)
  then show ?thesis by (simp add: upd_buf_map_next del: upd_buf_fields(1))
qed

lemma bget_found_moves:
  assumes "bget_found s p b lks = Inr (s', r)"
  shows "move_points (trace s') = move_points (trace s) \<and> buckets s' = buckets s \<and>
         map next (buf s') = map next (buf s)"
proof -
  let ?s2 = "fold release lks (log (SetRefcnt b (refcnt (buf s ! b) + 1))
                 (upd_buf b (\<lambda>x. x\<lparr>refcnt := refcnt x + 1\<rparr>) s))"
  from assms have a: "acquiresleep ?s2 p b = Inr s'"
    by (auto simp: bget_found_def Let_def split: sum.splits)
  have "move_points (trace ?s2) = move_points (trace s) \<and> buckets ?s2 = buckets s \<and>
        map next (buf ?s2) = map next (buf s)"
    by (simp add: upd_buf_map_next del: upd_buf_fields(1))
  with acquiresleep_moves [OF a] show ?thesis by simp
qed

lemma install_moves:
  assumes "install s p dv bn buk_id l = Inr (s', r)"
  shows "move_points (trace s') = move_points (trace s) \<and> buckets s' = buckets s \<and>
         map next (buf s') = map next (buf s)"
proof -
  let ?s2 = "release Bcache_lock (release (Bucket_lock buk_id) (log (SetRefcnt l 1)
                 (upd_buf l (\<lambda>x. x\<lparr>dev := dv, blockno := bn, valid := False, refcnt := 1\<rparr>) s)))"
  from assms have a: "acquiresleep ?s2 p l = Inr s'"
    by (auto simp: install_def Let_def split: sum.splits)
  have "move_points (trace ?s2) = move_points (trace s) \<and> buckets ?s2 = buckets s \<and>
        map next (buf ?s2) = map next (buf s)"
    by (simp add: upd_buf_map_next del: upd_buf_fields(1))
  with acquiresleep_moves [OF a] show ?thesis by simp
qed

lemma bget_miss_moves:
  assumes ch: "chains s cs" and sep: "separate cs" and buk: "buk_id < NBUK"
    and ret: "bget_miss s p dv bn buk_id = Inr (s', r)"
  shows "\<exists>e k. k < NBUK \<and> e \<in> set (cs k) \<and>
           move_points (trace s') =
             [(Link e buk_id, True, True), (Unlink e k, True, holding (trace s) Bcache_lock)]
             @ move_points (trace s) \<and>
           chains s' (move_buf cs e k buk_id) \<and> separate (move_buf cs e k buk_id)"
proof -
  from ret obtain s1 k' q lb where sel: "select_lru s = Inr (s1, k', q, lb)"
    by (auto simp: bget_miss_def split: sum.splits)
  define k where "k = nat k'"
  from select_lru_track [OF ch sel] obtain e where
    k: "k < NBUK" and h1: "holding (trace s1) (Bucket_lock k)" and
    lb: "lb = Some e" and mem: "(q, e) \<in> set (links (Head k) (cs k))" and
    t1: "move_points (trace s1) = move_points (trace s)"
        "holding (trace s1) Bcache_lock = holding (trace s) Bcache_lock"
    unfolding k_def by blast
  from select_lru_Inr [OF sel] lb have
    e_lt: "e < length (buf s)" and s1b: "buf s1 = buf s" "buckets s1 = buckets s"
    by simp_all
  from links_decomp [OF mem] obtain as bs where
    ck: "cs k = as @ e # bs" and qd: "q = (if as = [] then Head k else Buf (last as))" by blast
  from ch k have "is_chain (buf s) (next (head (buckets s k))) (cs k)" by (simp add: chains_iff)
  then have d: "distinct (cs k)" by (rule is_chain_distinct)
  with ck have rm: "remove1 e (cs k) = as @ bs" by (simp add: remove1_append)
  define u where "u = set_next q (next (buf s1 ! e)) s1"
  define t2 where "t2 = release (Bucket_lock k) (log (Unlink e k) u)"
  have un: "unlink_lru s1 k' q (Some e) = Inr t2"
    using e_lt s1b by (simp add: unlink_lru_def t2_def u_def k_def)
  define cs1 where "cs1 = cs(k := remove1 e (cs k))"
  have "chains s1 cs = chains s cs" using s1b by (rule chains_cong)
  with ch have ch1: "chains s1 cs" by simp
  have chu: "chains u cs1"
    using unlink_chains [OF ch1 sep k ck qd] by (simp add: u_def cs1_def rm)
  have "chains t2 cs1 = chains u cs1" by (rule chains_cong) (simp_all add: t2_def)
  with chu have ch2: "chains t2 cs1" by simp
  have ne1: "\<forall>j<NBUK. e \<notin> set (cs1 j)"
  proof (intro allI impI)
    fix j assume j: "j < NBUK"
    show "e \<notin> set (cs1 j)"
    proof (cases "j = k")
      case True
      with d ck show ?thesis by (simp add: cs1_def rm)
    next
      case False
      from ck have "e \<in> set (cs k)" by simp
      with sep k j False have "e \<notin> set (cs j)" unfolding separate_iff by blast
      with False show ?thesis by (simp add: cs1_def)
    qed
  qed
  have sub1: "\<And>j. set (cs1 j) \<subseteq> set (cs j)" using set_remove1_subset [of e "cs k"] by (auto simp: cs1_def)
  have sep1: "separate cs1" using sep sub1 by (rule separate_shrink)
  have sep2: "separate (move_buf cs e k buk_id)"
    unfolding separate_iff
  proof (intro allI impI)
    fix a b assume ab: "a < NBUK" "b < NBUK" "a \<noteq> b"
    from sep1 ab have "set (cs1 a) \<inter> set (cs1 b) = {}" unfolding separate_iff by blast
    with ne1 ab show "set (move_buf cs e k buk_id a) \<inter> set (move_buf cs e k buk_id b) = {}"
      unfolding move_buf_def cs1_def [symmetric] by auto
  qed
  define t3 where "t3 = acquire (Bucket_lock buk_id) (acquire Bcache_lock t2)"
  define v where
    "v = set_next (Head buk_id) (Some e) (set_next (Buf e) (next (head (buckets t3 buk_id))) t3)"
  define t4 where "t4 = log (Link e buk_id) v"
  have l4: "link_lru t3 buk_id (Some e) = t4" by (simp add: link_lru_def t4_def v_def)
  have "chains t3 cs1 = chains t2 cs1" by (rule chains_cong) (simp_all add: t3_def)
  with ch2 have ch3: "chains t3 cs1" by simp
  have "length (buf t3) = length (buf s)" using s1b by (simp add: t3_def t2_def u_def)
  with e_lt have e_lt3: "e < length (buf t3)" by simp
  have chv: "chains v (move_buf cs e k buk_id)"
    using link_chains [OF ch3 e_lt3 ne1 buk] unfolding v_def cs1_def move_buf_def .
  have "chains t4 (move_buf cs e k buk_id) = chains v (move_buf cs e k buk_id)"
    by (rule chains_cong) (simp_all add: t4_def)
  with chv have ch4: "chains t4 (move_buf cs e k buk_id)" by simp
  have tr4: "trace t4 = Link e buk_id # Acquire (Bucket_lock buk_id) # Acquire Bcache_lock
               # Release (Bucket_lock k) # Unlink e k # trace s1"
    by (simp add: t4_def v_def t3_def t2_def u_def)
  have mp4: "move_points (trace t4) =
      [(Link e buk_id, True, True), (Unlink e k, True, holding (trace s) Bcache_lock)]
      @ move_points (trace s)"
    using h1 t1 by (simp add: tr4)
  from ret sel lb un l4 have
    fin: "(\<exists>b. bget_found t4 p b [Bucket_lock buk_id, Bcache_lock] = Inr (s', r)) \<or>
          install t4 p dv bn buk_id e = Inr (s', r)"
    by (auto simp: bget_miss_def t3_def Let_def split: sum.splits option.splits)
  then have "move_points (trace s') = move_points (trace t4) \<and> buckets s' = buckets t4 \<and>
             map next (buf s') = map next (buf t4)"
  proof
    assume "\<exists>b. bget_found t4 p b [Bucket_lock buk_id, Bcache_lock] = Inr (s', r)"
    then obtain b where "bget_found t4 p b [Bucket_lock buk_id, Bcache_lock] = Inr (s', r)" ..
    then show ?thesis by (rule bget_found_moves)
  next
    assume "install t4 p dv bn buk_id e = Inr (s', r)"
    then show ?thesis by (rule install_moves)
  qed
  then have m: "move_points (trace s') = move_points (trace t4)"
    and bk: "buckets s' = buckets t4" and nx: "map next (buf s') = map next (buf t4)"
    by simp_all
  from bk nx have "chains s' (move_buf cs e k buk_id) = chains t4 (move_buf cs e k buk_id)"
    by (rule chains_map_next)
  with ch4 have c: "chains s' (move_buf cs e k buk_id)" by simp
  from ck have "e \<in> set (cs k)" by simp
  moreover from m mp4 have "move_points (trace s') =
      [(Link e buk_id, True, True), (Unlink e k, True, holding (trace s) Bcache_lock)]
      @ move_points (trace s)" by simp
  ultimately show ?thesis using k c sep2 by (intro exI [of _ e] exI [of _ k]) simp
qed

lemma binit_bufs_trace: "trace (binit_bufs nbuf b q s) = trace s"
proof (induction "nbuf - b" arbitrary: b q s)
  case 0
  then show ?case by (subst binit_bufs.simps) simp
next
  case (Suc d)
  then have b: "b < nbuf" and d: "d = nbuf - Suc b" by simp_all
  from b show ?case
    by (subst binit_bufs.simps) (simp add: Let_def Suc.hyps(1) [OF d])
qed

lemma binit_buckets_trace: "trace (binit_buckets i s) = trace s"
proof (induction "NBUK - i" arbitrary: i s)
  case 0
  then show ?case by (subst binit_buckets.simps) simp
next
  case (Suc d)
  then have i: "i < NBUK" and d: "d = NBUK - Suc i" by simp_all
  from i show ?case
    by (subst binit_buckets.simps) (simp add: Let_def Suc.hyps(1) [OF d] binit_bufs_trace)
qed

lemma bget_hit_moves:
  assumes "bget s p dv bn = Inr (s', r)"
    and "find_buf (length (buf s)) s dv bn (next (head (buckets s (hash dv bn)))) \<noteq> Inr None"
  shows "move_points (trace s') = move_points (trace s) \<and> buckets s' = buckets s \<and>
         map next (buf s') = map next (buf s)"
proof -
  let ?s1 = "acquire (Bucket_lock (hash dv bn)) s"
  have f: "find_buf (length (buf ?s1)) ?s1 dv bn (next (head (buckets ?s1 (hash dv bn))))
             = find_buf (length (buf s)) s dv bn (next (head (buckets s (hash dv bn))))"
    by (simp add: find_buf_cong [of ?s1 s])
  from assms f obtain b where "bget_found ?s1 p b [Bucket_lock (hash dv bn)] = Inr (s', r)"
    by (auto simp: bget_def Let_def split: sum.splits option.splits)
  from bget_found_moves [OF this] show ?thesis by simp
qed

lemma bget_miss_run:
  assumes "bget s p dv bn = Inr (s', r)"
    and "find_buf (length (buf s)) s dv bn (next (head (buckets s (hash dv bn)))) = Inr None"
    and "chains s cs" and "separate cs"
  shows "\<exists>e k. k < NBUK \<and> e \<in> set (cs k) \<and>
           move_points (trace s') =
             [(Link e (hash dv bn), True, True),
              (Unlink e k, True, holding (trace s) Bcache_lock)]
             @ move_points (trace s) \<and>
           chains s' (move_buf cs e k (hash dv bn)) \<and> separate (move_buf cs e k (hash dv bn))"
proof -
  let ?s1 = "acquire (Bucket_lock (hash dv bn)) s"
  let ?t = "release (Bucket_lock (hash dv bn)) ?s1"
  have f: "find_buf (length (buf ?s1)) ?s1 dv bn (next (head (buckets ?s1 (hash dv bn))))
             = find_buf (length (buf s)) s dv bn (next (head (buckets s (hash dv bn))))"
    by (simp add: find_buf_cong [of ?s1 s])
  from assms(1,2) f have m: "bget_miss ?t p dv bn (hash dv bn) = Inr (s', r)"
    by (simp add: bget_def Let_def)
  have "chains ?t cs = chains s cs" by (rule chains_cong) simp_all
  with assms(3) have c: "chains ?t cs" by simp
  from bget_miss_moves [OF c assms(4) hash_less m] show ?thesis by simp
qed

lemma bread_moves:
  assumes "bread s p dv bn = Inr (s', r)"
  shows "\<exists>s''. bget s p dv bn = Inr (s'', r) \<and> move_points (trace s') = move_points (trace s'') \<and>
           buckets s' = buckets s'' \<and> map next (buf s') = map next (buf s'')"
proof -
  from assms obtain s1 where g: "bget s p dv bn = Inr (s1, r)" and
    s': "s' = s1 \<or> s' = upd_buf r (\<lambda>x. x\<lparr>valid := True\<rparr>) (virtio_disk_rw s1 r False)"
    by (auto simp: bread_def split: sum.splits if_splits)
  from s' have "move_points (trace s') = move_points (trace s1) \<and> buckets s' = buckets s1 \<and>
                map next (buf s') = map next (buf s1)"
    by (auto simp: virtio_disk_rw_def upd_buf_map_next simp del: upd_buf_fields(1))
  with g show ?thesis by blast
qed

section \<open>What the operations do to refcnt and timestamp\<close>

lemma acquiresleep_counters:
  assumes "acquiresleep s p n = Inr s'"
  shows "timestamp (buf s' ! j) = timestamp (buf s ! j) \<and> refcnt (buf s' ! j) = refcnt (buf s ! j)"
proof -
  from assms have
    "s' = log (AcquireSleep n) (upd_buf n (\<lambda>b. b\<lparr>lock := \<lparr>locked = True, pid = p\<rparr>\<rparr>) s)"
    by (simp add: acquiresleep_def split: if_splits)
  then show ?thesis by (simp add: nth_upd_field)
qed

lemma bget_found_counters:
  assumes "bget_found s p b lks = Inr (s', r)"
  shows "timestamp (buf s' ! j) = timestamp (buf s ! j) \<and>
         (refcnt (buf s' ! j) = refcnt (buf s ! j) \<or> refcnt (buf s' ! j) = refcnt (buf s ! j) + 1)"
proof -
  let ?s2 = "fold release lks (log (SetRefcnt b (refcnt (buf s ! b) + 1))
                 (upd_buf b (\<lambda>x. x\<lparr>refcnt := refcnt x + 1\<rparr>) s))"
  from assms have a: "acquiresleep ?s2 p b = Inr s'"
    by (auto simp: bget_found_def Let_def split: sum.splits)
  have "timestamp (buf ?s2 ! j) = timestamp (buf s ! j)" by (simp add: nth_upd_field)
  moreover have "refcnt (buf ?s2 ! j) = refcnt (buf s ! j) \<or>
                 refcnt (buf ?s2 ! j) = refcnt (buf s ! j) + 1"
    by (cases "b < length (buf s)"; cases "b = j") (simp_all add: list_update_beyond)
  ultimately show ?thesis using acquiresleep_counters [OF a, of j] by simp
qed

lemma install_counters:
  assumes "install s p dv bn buk_id l = Inr (s', r)"
  shows "timestamp (buf s' ! j) = timestamp (buf s ! j) \<and>
         (refcnt (buf s' ! j) = refcnt (buf s ! j) \<or> refcnt (buf s' ! j) = 1)"
proof -
  let ?s2 = "release Bcache_lock (release (Bucket_lock buk_id) (log (SetRefcnt l 1)
                 (upd_buf l (\<lambda>x. x\<lparr>dev := dv, blockno := bn, valid := False, refcnt := 1\<rparr>) s)))"
  from assms have a: "acquiresleep ?s2 p l = Inr s'"
    by (auto simp: install_def Let_def split: sum.splits)
  have "timestamp (buf ?s2 ! j) = timestamp (buf s ! j)" by (simp add: nth_update_field_eq)
  moreover have "refcnt (buf ?s2 ! j) = refcnt (buf s ! j) \<or> refcnt (buf ?s2 ! j) = 1"
    by (cases "l < length (buf s)"; cases "l = j") (simp_all add: list_update_beyond)
  ultimately show ?thesis using acquiresleep_counters [OF a, of j] by simp
qed

lemma set_next_timestamp [simp]:
  "timestamp (buf (set_next q v s) ! n) = timestamp (buf s ! n)"
  by (rule set_next_buf_field) simp

lemma bget_miss_counters:
  assumes "bget_miss s p dv bn buk_id = Inr (s', r)"
  shows "timestamp (buf s' ! j) = timestamp (buf s ! j) \<and>
         (refcnt (buf s' ! j) = refcnt (buf s ! j) \<or> refcnt (buf s' ! j) = refcnt (buf s ! j) + 1 \<or>
          refcnt (buf s' ! j) = 1)"
proof -
  from assms obtain s1 k q lb where sel: "select_lru s = Inr (s1, k, q, lb)"
    by (auto simp: bget_miss_def split: sum.splits)
  from select_lru_Inr [OF sel] obtain e where
    lb: "lb = Some e" and b1: "buf s1 = buf s" by blast
  from assms sel lb obtain s2 where un: "unlink_lru s1 k q (Some e) = Inr s2"
    by (auto simp: bget_miss_def split: sum.splits)
  define t4 where
    "t4 = link_lru (acquire (Bucket_lock buk_id) (acquire Bcache_lock s2)) buk_id (Some e)"
  from un b1 have c2: "timestamp (buf s2 ! j) = timestamp (buf s ! j)"
    "refcnt (buf s2 ! j) = refcnt (buf s ! j)"
    by (auto simp: unlink_lru_def split: if_splits)
  then have c4: "timestamp (buf t4 ! j) = timestamp (buf s ! j)"
    "refcnt (buf t4 ! j) = refcnt (buf s ! j)"
    by (simp_all add: t4_def link_lru_def)
  from assms sel lb un have
    "(\<exists>b. bget_found t4 p b [Bucket_lock buk_id, Bcache_lock] = Inr (s', r)) \<or>
     install t4 p dv bn buk_id e = Inr (s', r)"
    by (auto simp: bget_miss_def t4_def Let_def split: sum.splits option.splits)
  then show ?thesis
  proof
    assume "\<exists>b. bget_found t4 p b [Bucket_lock buk_id, Bcache_lock] = Inr (s', r)"
    then obtain b where "bget_found t4 p b [Bucket_lock buk_id, Bcache_lock] = Inr (s', r)" ..
    from bget_found_counters [OF this, of j] c4 show ?thesis by auto
  next
    assume "install t4 p dv bn buk_id e = Inr (s', r)"
    from install_counters [OF this, of j] c4 show ?thesis by auto
  qed
qed

lemma bget_counters:
  assumes "bget s p dv bn = Inr (s', r)"
  shows "timestamp (buf s' ! j) = timestamp (buf s ! j) \<and>
         (refcnt (buf s' ! j) = refcnt (buf s ! j) \<or> refcnt (buf s' ! j) = refcnt (buf s ! j) + 1 \<or>
          refcnt (buf s' ! j) = 1)"
proof -
  define s1 where "s1 = acquire (Bucket_lock (hash dv bn)) s"
  from assms have
    "(\<exists>b. bget_found s1 p b [Bucket_lock (hash dv bn)] = Inr (s', r)) \<or>
     bget_miss (release (Bucket_lock (hash dv bn)) s1) p dv bn (hash dv bn) = Inr (s', r)"
    by (auto simp: bget_def s1_def Let_def split: sum.splits option.splits)
  then show ?thesis
  proof
    assume "\<exists>b. bget_found s1 p b [Bucket_lock (hash dv bn)] = Inr (s', r)"
    then obtain b where "bget_found s1 p b [Bucket_lock (hash dv bn)] = Inr (s', r)" ..
    from bget_found_counters [OF this, of j] show ?thesis by (auto simp: s1_def)
  next
    assume "bget_miss (release (Bucket_lock (hash dv bn)) s1) p dv bn (hash dv bn) = Inr (s', r)"
    from bget_miss_counters [OF this, of j] show ?thesis by (auto simp: s1_def)
  qed
qed

lemma bread_counters:
  assumes "bread s p dv bn = Inr (s', r)"
  shows "timestamp (buf s' ! j) = timestamp (buf s ! j) \<and>
         (refcnt (buf s' ! j) = refcnt (buf s ! j) \<or> refcnt (buf s' ! j) = refcnt (buf s ! j) + 1 \<or>
          refcnt (buf s' ! j) = 1)"
proof -
  from assms obtain s1 where g: "bget s p dv bn = Inr (s1, r)" and
    s': "s' = s1 \<or> s' = upd_buf r (\<lambda>x. x\<lparr>valid := True\<rparr>) (virtio_disk_rw s1 r False)"
    by (auto simp: bread_def split: sum.splits if_splits)
  from s' have "timestamp (buf s' ! j) = timestamp (buf s1 ! j) \<and>
                refcnt (buf s' ! j) = refcnt (buf s1 ! j)"
    by (auto simp: virtio_disk_rw_def nth_upd_field)
  with bget_counters [OF g, of j] show ?thesis by simp
qed

lemma binit_bufs_fields:
  "length (buf (binit_bufs nbuf b q s)) = length (buf s) \<and> ticks (binit_bufs nbuf b q s) = ticks s"
proof (induction "nbuf - b" arbitrary: b q s)
  case 0
  then show ?case by (subst (1 2) binit_bufs.simps) simp
next
  case (Suc d)
  then have b: "b < nbuf" and d: "d = nbuf - Suc b" by simp_all
  from b show ?case
    by (subst (1 2) binit_bufs.simps) (simp add: Let_def Suc.hyps(1) [OF d])
qed

lemma binit_bufs_timestamp:
  "nbuf \<le> length (buf s) \<Longrightarrow>
   timestamp (buf (binit_bufs nbuf b q s) ! n) =
     (if b \<le> n \<and> n < nbuf then ticks s else timestamp (buf s ! n))"
proof (induction "nbuf - b" arbitrary: b q s)
  case 0
  then show ?case by (subst binit_bufs.simps) auto
next
  case (Suc d)
  then have b: "b < nbuf" and d: "d = nbuf - Suc b" by simp_all
  let ?s1 = "if b = nbuf - 1 then set_next (Buf b) None s else s"
  let ?s2 = "set_next q (Some b) ?s1"
  let ?s3 = "upd_buf b (\<lambda>x. x\<lparr>timestamp := ticks ?s2\<rparr>) ?s2"
  let ?s4 = "upd_buf b (\<lambda>x. x\<lparr>lock := \<lparr>locked = False, pid = 0\<rparr>\<rparr>) ?s3"
  have u: "binit_bufs nbuf b q s = binit_bufs nbuf (b + 1) (Buf b) ?s4"
    using b by (subst binit_bufs.simps) (simp add: Let_def)
  have l4: "length (buf ?s4) = length (buf s)" and k4: "ticks ?s4 = ticks s" by simp_all
  with Suc.prems have le: "nbuf \<le> length (buf ?s4)" by simp
  from b Suc.prems have bl: "b < length (buf s)" by simp
  have t4: "timestamp (buf ?s4 ! n) = (if n = b then ticks s else timestamp (buf s ! n))"
    using bl by (simp add: nth_list_update)
  from d have d': "d = nbuf - (b + 1)" by simp
  from Suc.hyps(1) [OF d' le, of "Buf b"]
  have "timestamp (buf (binit_bufs nbuf (b + 1) (Buf b) ?s4) ! n) =
          (if b + 1 \<le> n \<and> n < nbuf then ticks ?s4 else timestamp (buf ?s4 ! n))" .
  with u k4 t4 b show ?case by auto
qed

lemma binit_buckets_later:
  "0 < i \<Longrightarrow> timestamp (buf (binit_buckets i s) ! n) = timestamp (buf s ! n)"
proof (induction "NBUK - i" arbitrary: i s)
  case 0
  then show ?case by (subst binit_buckets.simps) simp
next
  case (Suc d)
  then have i: "i < NBUK" "0 < i" and d: "d = NBUK - Suc i" by simp_all
  from i show ?case
    by (subst binit_buckets.simps) (simp add: Let_def Suc.hyps(1) [OF d])
qed

lemma binit_timestamp:
  "n < length (buf s) \<Longrightarrow> timestamp (buf (binit s) ! n) = ticks s"
proof -
  assume n: "n < length (buf s)"
  let ?s1 = "set_next (Head 0) None s"
  have "binit s = binit_buckets 1 (binit_bufs (length (buf ?s1)) 0 (Head 0) ?s1)"
    unfolding binit_def by (subst binit_buckets.simps) (simp add: Let_def NBUK_def)
  then have "timestamp (buf (binit s) ! n)
               = timestamp (buf (binit_bufs (length (buf ?s1)) 0 (Head 0) ?s1) ! n)"
    by (simp add: binit_buckets_later)
  also have "\<dots> = ticks s" using n by (simp add: binit_bufs_timestamp)
  finally show ?thesis .
qed

section \<open>Facts about the concrete states\<close>

lemma one_held_facts:
  "length (buf one_held) = 2"
  "holdingsleep (lock (buf one_held ! 1)) 1"
  "\<not> holdingsleep (lock (buf one_held ! 1)) 2"
  "refcnt (buf one_held ! 1) = 1"
  "timestamp (buf one_held ! 1) = 7"
  "ticks one_held = 7"
  "dev (buf one_held ! 1) = 1"
  "blockno (buf one_held ! 1) = 1"
  by code_simp+

lemmas one_held_Suc = one_held_facts [unfolded One_nat_def]

lemma pinned_released_facts:
  "length (buf pinned_released) = 2"
  "refcnt (buf pinned_released ! 1) = 1"
  "timestamp (buf pinned_released ! 1) = 7"
  "ticks pinned_released = 9"
  by code_simp+

lemma booted_chains:
  "chains booted (\<lambda>i. if i = 0 then [0, 1] else [])"
  "scan_order (\<lambda>i. if i = 0 then [0, 1] else []) = [0, 1]"
  "refcnt (buf booted ! 0) = 0"
  "timestamp (buf booted ! 0) = 7" "timestamp (buf booted ! 1) = 7"
  "separate (\<lambda>i. if i = 0 then [0, 1] else [])"
  "\<not> locked (lock (buf booted ! 0))" "\<not> locked (lock (buf booted ! 1))"
  "find_buf (length (buf booted)) booted 1 1 (next (head (buckets booted (hash 1 1)))) = Inr None"
  by code_simp+

lemmas booted_Suc = booted_chains [unfolded One_nat_def]

lemma booted_bget_returns: "\<not> isl (bget booted 1 1 1)"
  by code_simp

lemma booted_moves:
  "move_points (trace (fst (projr (bget booted 1 1 1))))
     = [(Link 1 1, True, True), (Unlink 1 0, True, False)]"
  "move_points (trace booted) = []"
  "holding (trace booted) Bcache_lock = False"
  "hash 1 1 = 1"
  "moves_locked (trace booted)"
  "\<not> isl (bread booted 1 1 1)"
  by code_simp+

lemma pinned_released_hit:
  "find_buf (length (buf pinned_released)) pinned_released 1 1
     (next (head (buckets pinned_released (hash 1 1)))) = Inr (Some 1)"
  "\<not> isl (bget pinned_released 2 1 1)"
  "move_points (trace pinned_released) = [(Link 1 1, True, True), (Unlink 1 0, True, False)]"
  by code_simp+

lemma one_held_returns:
  "\<not> isl (bwrite one_held 1 1)" "\<not> isl (brelse one_held 1 1)"
  "\<not> isl (bpin one_held 1)" "\<not> isl (bunpin one_held 1)"
  "move_points (trace one_held) = [(Link 1 1, True, True), (Unlink 1 0, True, False)]"
  by code_simp+

lemma one_held_later_facts:
  "refcnt (buf one_held_later ! 1) = 1" "timestamp (buf one_held_later ! 1) = 7"
  "ticks one_held_later = 9"
  "\<not> isl (brelse one_held_later 1 1)" "\<not> isl (bunpin one_held_later 1)"
  "\<not> isl (bget one_held_later 1 1 2)"
  "timestamp (buf one_held_later ! 0) = 7"
  "length (buf (zeroed 2 7)) = 2" "ticks (zeroed 2 7) = 7"
  "\<not> isl (bpin one_held_later 1)" "\<not> isl (bwrite one_held_later 1 1)"
  "\<not> isl (bread one_held_later 1 1 2)"
  by code_simp+

lemmas one_held_later_Suc = one_held_later_facts [unfolded One_nat_def]

section \<open>Properties of bget\<close>

text \<open>
  C1, at the scenario S3 of the specification, with \<open>NBUF = 2\<close>: both Bufs are held
  (\<open>refcnt = 1\<close>) and block (1, 3) is read. The scan finds no candidate and
  \<open>prev_lru_b\<close> is still null at line 117, where \<open>prev_lru_b->next\<close> is read: the
  run ends in a null dereference, before the \<open>panic("bget: no buffers")\<close> of
  line 146 is reached. In no state at all does \<open>bget\<close> or \<open>bread\<close> end in that
  panic.
\<close>

theorem bget_all_pinned_null_deref:
  "map refcnt (buf two_held) = [1, 1] \<and>
   isl (bget two_held 1 1 3) \<and> projl (bget two_held 1 1 3) = NullDeref \<and>
   isl (bread two_held 1 1 3) \<and> projl (bread two_held 1 1 3) = NullDeref \<and>
   bget s p dv bn \<noteq> Inl (Panic ''bget: no buffers'') \<and>
   bread s p dv bn \<noteq> Inl (Panic ''bget: no buffers'')"
proof -
  have "map refcnt (buf two_held) = [1, 1]"
    "isl (bget two_held 1 1 3)" "projl (bget two_held 1 1 3) = NullDeref"
    "isl (bread two_held 1 1 3)" "projl (bread two_held 1 1 3) = NullDeref"
    by code_simp+
  then show ?thesis using bget_never_panics bread_never_panics by simp
qed

text \<open>
  C2, as the code has it. \<open>binit\<close> builds the first chain with no lock taken. After
  that a Buf changes bucket only in \<open>bget\<close>, and only on a miss: in every call of
  \<open>bget\<close> that misses and returns, exactly one Buf \<open>e\<close> moves. It is a Buf of the chain
  of some bucket \<open>k\<close>, and it is taken out of that chain while the caller holds the
  spin-lock of bucket \<open>k\<close>; \<open>bcache.lock\<close> is held at that point only if the caller
  held it on entry, since \<open>bget\<close> acquires it after the unlink. Then \<open>e\<close> is put at
  the front of the chain of the target bucket while the caller holds that bucket's
  spin-lock and \<open>bcache.lock\<close>. Afterwards the chains are those before the call with
  \<open>e\<close> moved, and they are still separate. A call of \<open>bget\<close> that hits, and
  \<open>bwrite\<close>, \<open>brelse\<close>, \<open>bpin\<close> and \<open>bunpin\<close>, move no Buf and write no \<open>next\<close>
  field; \<open>bread\<close> moves what its \<open>bget\<close> moves.
\<close>

theorem membership_changes_under_bucket_lock:
  "(\<forall>s' r. bget s p dv bn = Inr (s', r) \<longrightarrow>
      (moves_locked (trace s) \<longrightarrow> moves_locked (trace s')) \<and>
      (find_buf (length (buf s)) s dv bn (next (head (buckets s (hash dv bn)))) \<noteq> Inr None \<longrightarrow>
         move_points (trace s') = move_points (trace s) \<and> buckets s' = buckets s \<and>
         map next (buf s') = map next (buf s)) \<and>
      (find_buf (length (buf s)) s dv bn (next (head (buckets s (hash dv bn)))) = Inr None \<longrightarrow>
       chains s cs \<longrightarrow> separate cs \<longrightarrow>
         (\<exists>e k. k < NBUK \<and> e \<in> set (cs k) \<and>
            move_points (trace s') =
              [(Link e (hash dv bn), True, True),
               (Unlink e k, True, holding (trace s) Bcache_lock)]
              @ move_points (trace s) \<and>
            chains s' (move_buf cs e k (hash dv bn)) \<and>
            separate (move_buf cs e k (hash dv bn))))) \<and>
   (\<forall>s' r. bread s p dv bn = Inr (s', r) \<longrightarrow>
      (moves_locked (trace s) \<longrightarrow> moves_locked (trace s')) \<and>
      (\<exists>s''. bget s p dv bn = Inr (s'', r) \<and>
         move_points (trace s') = move_points (trace s'') \<and> buckets s' = buckets s'' \<and>
         map next (buf s') = map next (buf s''))) \<and>
   (\<forall>s'. bwrite s p b = Inr s' \<longrightarrow>
      (moves_locked (trace s) \<longrightarrow> moves_locked (trace s')) \<and>
      move_points (trace s') = move_points (trace s) \<and> buckets s' = buckets s \<and>
      map next (buf s') = map next (buf s)) \<and>
   (\<forall>s'. brelse s p b = Inr s' \<longrightarrow>
      (moves_locked (trace s) \<longrightarrow> moves_locked (trace s')) \<and>
      move_points (trace s') = move_points (trace s) \<and> buckets s' = buckets s \<and>
      map next (buf s') = map next (buf s)) \<and>
   (\<forall>s'. bpin s b = Inr s' \<longrightarrow>
      (moves_locked (trace s) \<longrightarrow> moves_locked (trace s')) \<and>
      move_points (trace s') = move_points (trace s) \<and> buckets s' = buckets s \<and>
      map next (buf s') = map next (buf s)) \<and>
   (\<forall>s'. bunpin s b = Inr s' \<longrightarrow>
      (moves_locked (trace s) \<longrightarrow> moves_locked (trace s')) \<and>
      move_points (trace s') = move_points (trace s) \<and> buckets s' = buckets s \<and>
      map next (buf s') = map next (buf s)) \<and>
   trace (binit s) = trace s"
proof -
  have g: "\<forall>s' r. bget s p dv bn = Inr (s', r) \<longrightarrow>
      (moves_locked (trace s) \<longrightarrow> moves_locked (trace s')) \<and>
      (find_buf (length (buf s)) s dv bn (next (head (buckets s (hash dv bn)))) \<noteq> Inr None \<longrightarrow>
         move_points (trace s') = move_points (trace s) \<and> buckets s' = buckets s \<and>
         map next (buf s') = map next (buf s)) \<and>
      (find_buf (length (buf s)) s dv bn (next (head (buckets s (hash dv bn)))) = Inr None \<longrightarrow>
       chains s cs \<longrightarrow> separate cs \<longrightarrow>
         (\<exists>e k. k < NBUK \<and> e \<in> set (cs k) \<and>
            move_points (trace s') =
              [(Link e (hash dv bn), True, True),
               (Unlink e k, True, holding (trace s) Bcache_lock)]
              @ move_points (trace s) \<and>
            chains s' (move_buf cs e k (hash dv bn)) \<and>
            separate (move_buf cs e k (hash dv bn))))"
    using bget_Inr bget_hit_moves bget_miss_run by (intro allI impI conjI) blast+
  have r: "\<forall>s' r. bread s p dv bn = Inr (s', r) \<longrightarrow>
      (moves_locked (trace s) \<longrightarrow> moves_locked (trace s')) \<and>
      (\<exists>s''. bget s p dv bn = Inr (s'', r) \<and>
         move_points (trace s') = move_points (trace s'') \<and> buckets s' = buckets s'' \<and>
         map next (buf s') = map next (buf s''))"
    using bread_Inr bread_moves by (intro allI impI conjI) blast+
  have w: "\<forall>s'. bwrite s p b = Inr s' \<longrightarrow>
      (moves_locked (trace s) \<longrightarrow> moves_locked (trace s')) \<and>
      move_points (trace s') = move_points (trace s) \<and> buckets s' = buckets s \<and>
      map next (buf s') = map next (buf s)"
    by (auto simp: bwrite_def virtio_disk_rw_def split: if_splits)
  have e: "\<forall>s'. brelse s p b = Inr s' \<longrightarrow>
      (moves_locked (trace s) \<longrightarrow> moves_locked (trace s')) \<and>
      move_points (trace s') = move_points (trace s) \<and> buckets s' = buckets s \<and>
      map next (buf s') = map next (buf s)"
    by (auto simp: brelse_def releasesleep_def Let_def map_update list_update_same_conv
          split: if_splits)
  have i: "\<forall>s'. bpin s b = Inr s' \<longrightarrow>
      (moves_locked (trace s) \<longrightarrow> moves_locked (trace s')) \<and>
      move_points (trace s') = move_points (trace s) \<and> buckets s' = buckets s \<and>
      map next (buf s') = map next (buf s)"
    by (auto simp: bpin_def Let_def map_update list_update_same_conv split: if_splits)
  have u: "\<forall>s'. bunpin s b = Inr s' \<longrightarrow>
      (moves_locked (trace s) \<longrightarrow> moves_locked (trace s')) \<and>
      move_points (trace s') = move_points (trace s) \<and> buckets s' = buckets s \<and>
      map next (buf s') = map next (buf s)"
    by (auto simp: bunpin_def Let_def map_update list_update_same_conv split: if_splits)
  have n: "trace (binit s) = trace s" by (simp add: binit_def binit_buckets_trace)
  from g r w e i u n show ?thesis by blast
qed

theorem membership_changes_under_bucket_lock_witness:
  "chains booted (\<lambda>i. if i = 0 then [0, 1] else []) \<and>
   separate (\<lambda>i. if i = 0 then [0, 1] else []) \<and>
   find_buf (length (buf booted)) booted 1 1 (next (head (buckets booted (hash 1 1)))) = Inr None \<and>
   moves_locked (trace booted) \<and> \<not> isl (bget booted 1 1 1) \<and>
   moves_locked (trace (fst (projr (bget booted 1 1 1)))) \<and>
   move_points (trace (fst (projr (bget booted 1 1 1))))
     = [(Link 1 1, True, True), (Unlink 1 0, True, False)] \<and>
   (1::nat) \<in> set ((\<lambda>i. if i = 0 then [0, 1] else []) (0::nat)) \<and>
   chains (fst (projr (bget booted 1 1 1)))
     (move_buf (\<lambda>i. if i = 0 then [0, 1] else []) 1 0 1) \<and>
   \<not> isl (bread booted 1 1 1) \<and>
   move_points (trace (fst (projr (bread booted 1 1 1))))
     = [(Link 1 1, True, True), (Unlink 1 0, True, False)] \<and>
   find_buf (length (buf pinned_released)) pinned_released 1 1
     (next (head (buckets pinned_released (hash 1 1)))) = Inr (Some 1) \<and>
   \<not> isl (bget pinned_released 2 1 1) \<and>
   move_points (trace (fst (projr (bget pinned_released 2 1 1))))
     = [(Link 1 1, True, True), (Unlink 1 0, True, False)] \<and>
   \<not> isl (bwrite one_held 1 1) \<and>
   move_points (trace (projr (bwrite one_held 1 1)))
     = [(Link 1 1, True, True), (Unlink 1 0, True, False)] \<and>
   \<not> isl (brelse one_held 1 1) \<and>
   move_points (trace (projr (brelse one_held 1 1)))
     = [(Link 1 1, True, True), (Unlink 1 0, True, False)] \<and>
   \<not> isl (bpin one_held 1) \<and>
   move_points (trace (projr (bpin one_held 1)))
     = [(Link 1 1, True, True), (Unlink 1 0, True, False)] \<and>
   \<not> isl (bunpin one_held 1) \<and>
   move_points (trace (projr (bunpin one_held 1)))
     = [(Link 1 1, True, True), (Unlink 1 0, True, False)] \<and>
   trace (binit (zeroed 2 7)) = []"
proof -
  let ?cs = "\<lambda>i::nat. if i = 0 then [0, 1::nat] else []"
  let ?s' = "fst (projr (bget booted 1 1 1))"
  let ?mv = "[(Link 1 1, True, True), (Unlink 1 0, True, False)]"
  note t = membership_changes_under_bucket_lock
  have e: "bget booted 1 1 1 = Inr (?s', snd (projr (bget booted 1 1 1)))"
    using booted_bget_returns by simp
  from t [of booted 1 1 1 ?cs] e booted_chains(9,1,6)
  obtain x k where xk: "k < NBUK" "x \<in> set (?cs k)"
    "move_points (trace ?s') =
       [(Link x (hash 1 1), True, True), (Unlink x k, True, holding (trace booted) Bcache_lock)]
       @ move_points (trace booted)"
    "chains ?s' (move_buf ?cs x k (hash 1 1))"
    by blast
  from xk(3) have "x = 1 \<and> k = 0" unfolding booted_moves by simp
  with xk(4) have c: "chains ?s' (move_buf ?cs 1 0 1)" by (simp add: booted_moves(4))
  from t [of booted 1 1 1 ?cs] e booted_moves(5)
  have ml: "moves_locked (trace ?s')" by blast
  have er: "bread booted 1 1 1
      = Inr (fst (projr (bread booted 1 1 1)), snd (projr (bread booted 1 1 1)))"
    using booted_moves(6) by simp
  from t [of booted 1 1 1 ?cs] er
  obtain s'' where "bget booted 1 1 1 = Inr (s'', snd (projr (bread booted 1 1 1)))"
    "move_points (trace (fst (projr (bread booted 1 1 1)))) = move_points (trace s'')"
    by blast
  then have rd: "move_points (trace (fst (projr (bread booted 1 1 1)))) = ?mv"
    using booted_moves(1) by simp
  have eh: "bget pinned_released 2 1 1
      = Inr (fst (projr (bget pinned_released 2 1 1)), snd (projr (bget pinned_released 2 1 1)))"
    using pinned_released_hit(2) by simp
  have nm: "find_buf (length (buf pinned_released)) pinned_released 1 1
      (next (head (buckets pinned_released (hash 1 1)))) \<noteq> Inr None"
    by (simp only: pinned_released_hit(1)) simp
  from t [of pinned_released 2 1 1 ?cs] eh nm
  have "move_points (trace (fst (projr (bget pinned_released 2 1 1))))
      = move_points (trace pinned_released)"
    by blast
  then have hit: "move_points (trace (fst (projr (bget pinned_released 2 1 1)))) = ?mv"
    by (simp only: pinned_released_hit(3))
  have eo: "bwrite one_held 1 1 = Inr (projr (bwrite one_held 1 1))"
    "brelse one_held 1 1 = Inr (projr (brelse one_held 1 1))"
    "bpin one_held 1 = Inr (projr (bpin one_held 1))"
    "bunpin one_held 1 = Inr (projr (bunpin one_held 1))"
    using one_held_returns(1-4) by simp_all
  note o = t [where s = one_held and p = 1 and b = 1]
  from o eo(1) have "move_points (trace (projr (bwrite one_held 1 1)))
      = move_points (trace one_held)" by blast
  then have w: "move_points (trace (projr (bwrite one_held 1 1))) = ?mv"
    by (simp only: one_held_returns(5))
  from o eo(2) have "move_points (trace (projr (brelse one_held 1 1)))
      = move_points (trace one_held)" by blast
  then have r: "move_points (trace (projr (brelse one_held 1 1))) = ?mv"
    by (simp only: one_held_returns(5))
  from o eo(3) have "move_points (trace (projr (bpin one_held 1)))
      = move_points (trace one_held)" by blast
  then have i: "move_points (trace (projr (bpin one_held 1))) = ?mv"
    by (simp only: one_held_returns(5))
  from o eo(4) have "move_points (trace (projr (bunpin one_held 1)))
      = move_points (trace one_held)" by blast
  then have u: "move_points (trace (projr (bunpin one_held 1))) = ?mv"
    by (simp only: one_held_returns(5))
  from t [of "zeroed 2 7"]
  have "trace (binit (zeroed 2 7)) = trace (zeroed 2 7)" by blast
  then have b: "trace (binit (zeroed 2 7)) = []" by (simp add: zeroed_def)
  have m: "(1::nat) \<in> set (?cs 0)" by simp
  from booted_chains(1,6,9) booted_moves(5) booted_bget_returns ml booted_moves(1) m c
    booted_moves(6) rd pinned_released_hit(1,2) hit one_held_returns(1-4) w r i u b
  show ?thesis by blast
qed

text \<open>
  C2, as the claim states it, fails: in the first \<open>bget\<close> after \<open>binit\<close> Buf 1 is
  taken out of the chain of bucket 0 (the ninth latest event of the run) while the
  caller holds the lock of bucket 0 and does not hold \<open>bcache.lock\<close>, which is
  acquired only afterwards.
\<close>

theorem unlink_without_bcache_lock:
  "moves_under_both_locks (trace booted) \<and> \<not> isl (bget booted 1 1 1) \<and>
   \<not> moves_under_both_locks (trace (fst (projr (bget booted 1 1 1)))) \<and>
   trace (fst (projr (bget booted 1 1 1))) ! 8 = Unlink 1 0 \<and>
   holding (drop 9 (trace (fst (projr (bget booted 1 1 1))))) (Bucket_lock 0) \<and>
   \<not> holding (drop 9 (trace (fst (projr (bget booted 1 1 1))))) Bcache_lock"
  by code_simp

text \<open>
  C3. Let every bucket's chain be a proper list and let some Buf in the chains have
  \<open>refcnt == 0\<close>. Then the scan of a \<open>bget\<close> miss returns, and the Buf it selects
  stands at a position \<open>j\<close> of the scan order (buckets 0 to \<open>NBUK - 1\<close>, each chain
  from its head) such that: it has \<open>refcnt == 0\<close>; no Buf with \<open>refcnt == 0\<close> has a
  larger timestamp; every Buf with \<open>refcnt == 0\<close> that the scan meets later has a
  strictly smaller timestamp, so among equal timestamps the latest wins. It is the
  only Buf whose identity a returning \<open>bget\<close> can change. If moreover no Buf is in
  two chains and no Buf with \<open>refcnt == 0\<close> has its SleepLock held, then every \<open>bget\<close>
  that misses in its target bucket returns this Buf, with the identity asked for,
  \<open>refcnt = 1\<close> and the SleepLock held by the caller.
\<close>

theorem eviction_selects_latest_max_timestamp:
  assumes "chains s cs" and "\<exists>n\<in>set (scan_order cs). refcnt (buf s ! n) = 0"
  shows "\<exists>s1 k q j. select_lru s = Inr (s1, k, q, Some (scan_order cs ! j)) \<and>
           j < length (scan_order cs) \<and> refcnt (buf s ! (scan_order cs ! j)) = 0 \<and>
           (\<forall>j'<length (scan_order cs). refcnt (buf s ! (scan_order cs ! j')) = 0 \<longrightarrow>
              timestamp (buf s ! (scan_order cs ! j')) \<le> timestamp (buf s ! (scan_order cs ! j))) \<and>
           (\<forall>j'<length (scan_order cs). j < j' \<longrightarrow> refcnt (buf s ! (scan_order cs ! j')) = 0 \<longrightarrow>
              timestamp (buf s ! (scan_order cs ! j')) < timestamp (buf s ! (scan_order cs ! j))) \<and>
           (\<forall>p dv bn s' r. bget s p dv bn = Inr (s', r) \<longrightarrow>
              (\<forall>n. n \<noteq> scan_order cs ! j \<longrightarrow> ident s' n = ident s n)) \<and>
           (separate cs \<longrightarrow>
            (\<forall>n\<in>set (scan_order cs). refcnt (buf s ! n) = 0 \<longrightarrow> \<not> locked (lock (buf s ! n))) \<longrightarrow>
            (\<forall>p dv bn.
               find_buf (length (buf s)) s dv bn (next (head (buckets s (hash dv bn)))) = Inr None \<longrightarrow>
               (\<exists>s'. bget s p dv bn = Inr (s', scan_order cs ! j) \<and>
                     ident s' (scan_order cs ! j) = (dv, bn) \<and>
                     refcnt (buf s' ! (scan_order cs ! j)) = 1 \<and>
                     holdingsleep (lock (buf s' ! (scan_order cs ! j))) p)))"
proof -
  from select_lru_pick [OF assms] obtain s1 k q j where
    sel: "select_lru s = Inr (s1, k, q, Some (scan_order cs ! j))" and
    q: "snd (pick (buf s) (all_links cs 0) (0, None)) = Some q" and
    nx: "next_of s q = Some (scan_order cs ! j)" and
    j: "j < length (scan_order cs)" "free (buf s) (scan_order cs ! j)" and
    b: "\<forall>j'<length (scan_order cs). free (buf s) (scan_order cs ! j') \<longrightarrow>
              timestamp (buf s ! (scan_order cs ! j')) \<le> timestamp (buf s ! (scan_order cs ! j))" and
    l: "\<forall>j'<length (scan_order cs). j < j' \<longrightarrow> free (buf s) (scan_order cs ! j') \<longrightarrow>
              timestamp (buf s ! (scan_order cs ! j')) < timestamp (buf s ! (scan_order cs ! j))"
    by blast
  have g: "\<forall>p dv bn s' r. bget s p dv bn = Inr (s', r) \<longrightarrow>
              (\<forall>n. n \<noteq> scan_order cs ! j \<longrightarrow> ident s' n = ident s n)"
  proof (intro allI impI)
    fix p dv bn s' r n
    assume r: "bget s p dv bn = Inr (s', r)" and n: "n \<noteq> scan_order cs ! j"
    from bget_evicts [OF r] show "ident s' n = ident s n"
    proof
      assume "\<forall>j. ident s' j = ident s j"
      then show ?thesis by simp
    next
      assume "\<exists>s0 s1 k q e. buf s0 = buf s \<and> buckets s0 = buckets s \<and>
            select_lru s0 = Inr (s1, k, q, Some e) \<and> (\<forall>j. j \<noteq> e \<longrightarrow> ident s' j = ident s j)"
      then obtain s0 t k0 q0 e where
        e: "buf s0 = buf s" "buckets s0 = buckets s"
           "select_lru s0 = Inr (t, k0, q0, Some e)" "\<forall>j. j \<noteq> e \<longrightarrow> ident s' j = ident s j"
        by blast
      from e(1,2) assms have "chains s0 cs" "\<exists>n\<in>set (scan_order cs). refcnt (buf s0 ! n) = 0"
        by (simp_all add: chains_cong [of s0 s])
      from select_lru_pick [OF this] e(1,3) have
        "snd (pick (buf s) (all_links cs 0) (0, None)) = Some q0"
        "next_of s0 q0 = Some e"
        by auto
      moreover from e(1,2) have "next_of s0 q0 = next_of s q0" by (rule next_of_cong)
      ultimately have "e = scan_order cs ! j" using q nx by simp
      with e(4) n show ?thesis by simp
    qed
  qed
  have m: "separate cs \<longrightarrow>
            (\<forall>n\<in>set (scan_order cs). refcnt (buf s ! n) = 0 \<longrightarrow> \<not> locked (lock (buf s ! n))) \<longrightarrow>
            (\<forall>p dv bn.
               find_buf (length (buf s)) s dv bn (next (head (buckets s (hash dv bn)))) = Inr None \<longrightarrow>
               (\<exists>s'. bget s p dv bn = Inr (s', scan_order cs ! j) \<and>
                     ident s' (scan_order cs ! j) = (dv, bn) \<and>
                     refcnt (buf s' ! (scan_order cs ! j)) = 1 \<and>
                     holdingsleep (lock (buf s' ! (scan_order cs ! j))) p))"
  proof (intro impI allI)
    fix p dv bn
    assume sep: "separate cs"
      and unl: "\<forall>n\<in>set (scan_order cs). refcnt (buf s ! n) = 0 \<longrightarrow> \<not> locked (lock (buf s ! n))"
      and miss: "find_buf (length (buf s)) s dv bn (next (head (buckets s (hash dv bn)))) = Inr None"
    from bget_miss_returns_selected [OF assms(1) sep assms(2) unl miss, of p]
    obtain t k0 q0 e s' where
      "select_lru s = Inr (t, k0, q0, Some e)" "bget s p dv bn = Inr (s', e)"
      "ident s' e = (dv, bn)" "refcnt (buf s' ! e) = 1" "holdingsleep (lock (buf s' ! e)) p"
      by blast
    with sel show "\<exists>s'. bget s p dv bn = Inr (s', scan_order cs ! j) \<and>
                     ident s' (scan_order cs ! j) = (dv, bn) \<and>
                     refcnt (buf s' ! (scan_order cs ! j)) = 1 \<and>
                     holdingsleep (lock (buf s' ! (scan_order cs ! j))) p"
      by auto
  qed
  from j b l have jbl: "j < length (scan_order cs) \<and> refcnt (buf s ! (scan_order cs ! j)) = 0 \<and>
           (\<forall>j'<length (scan_order cs). refcnt (buf s ! (scan_order cs ! j')) = 0 \<longrightarrow>
              timestamp (buf s ! (scan_order cs ! j')) \<le> timestamp (buf s ! (scan_order cs ! j))) \<and>
           (\<forall>j'<length (scan_order cs). j < j' \<longrightarrow> refcnt (buf s ! (scan_order cs ! j')) = 0 \<longrightarrow>
              timestamp (buf s ! (scan_order cs ! j')) < timestamp (buf s ! (scan_order cs ! j)))"
    unfolding free_def by blast
  from sel jbl g m show ?thesis by blast
qed

theorem eviction_selects_latest_max_timestamp_witness:
  "chains booted (\<lambda>i. if i = 0 then [0, 1] else []) \<and>
   (\<exists>n\<in>set (scan_order (\<lambda>i. if i = 0 then [0, 1] else [])). refcnt (buf booted ! n) = 0) \<and>
   scan_order (\<lambda>i. if i = 0 then [0, 1] else []) = [0, 1] \<and>
   timestamp (buf booted ! 0) = timestamp (buf booted ! 1) \<and>
   (\<exists>s1 k q. select_lru booted = Inr (s1, k, q, Some 1)) \<and>
   separate (\<lambda>i. if i = 0 then [0, 1] else []) \<and>
   \<not> locked (lock (buf booted ! 0)) \<and> \<not> locked (lock (buf booted ! 1)) \<and>
   find_buf (length (buf booted)) booted 1 1 (next (head (buckets booted (hash 1 1)))) = Inr None \<and>
   (\<exists>s'. bget booted 1 1 1 = Inr (s', 1) \<and> ident s' 1 = (1, 1) \<and> refcnt (buf s' ! 1) = 1)"
proof -
  let ?cs = "\<lambda>i::nat. if i = 0 then [0, 1::nat] else []"
  have so: "scan_order ?cs = [0, 1]" by (rule booted_chains(2))
  have "0 \<in> set (scan_order ?cs)" unfolding so by simp
  with booted_chains(3) have h: "\<exists>n\<in>set (scan_order ?cs). refcnt (buf booted ! n) = 0"
    by blast
  have u: "\<forall>n\<in>set (scan_order ?cs). refcnt (buf booted ! n) = 0 \<longrightarrow> \<not> locked (lock (buf booted ! n))"
    unfolding so using booted_Suc(7,8) by simp
  from eviction_selects_latest_max_timestamp [OF booted_chains(1) h] obtain s1 k q j where
    sel: "select_lru booted = Inr (s1, k, q, Some (scan_order ?cs ! j))" and
    j: "j < length (scan_order ?cs)" and
    l: "\<forall>j'<length (scan_order ?cs). j < j' \<longrightarrow> refcnt (buf booted ! (scan_order ?cs ! j')) = 0 \<longrightarrow>
          timestamp (buf booted ! (scan_order ?cs ! j')) < timestamp (buf booted ! (scan_order ?cs ! j))" and
    m: "separate ?cs \<longrightarrow>
          (\<forall>n\<in>set (scan_order ?cs). refcnt (buf booted ! n) = 0 \<longrightarrow> \<not> locked (lock (buf booted ! n))) \<longrightarrow>
          (\<forall>p dv bn.
             find_buf (length (buf booted)) booted dv bn (next (head (buckets booted (hash dv bn))))
               = Inr None \<longrightarrow>
             (\<exists>s'. bget booted p dv bn = Inr (s', scan_order ?cs ! j) \<and>
                   ident s' (scan_order ?cs ! j) = (dv, bn) \<and>
                   refcnt (buf s' ! (scan_order ?cs ! j)) = 1 \<and>
                   holdingsleep (lock (buf s' ! (scan_order ?cs ! j))) p))"
    by blast
  have r1: "refcnt (buf booted ! Suc 0) = 0" by code_simp
  have j1: "j = 1"
  proof (rule ccontr)
    assume "j \<noteq> 1"
    with j [unfolded so] have j0: "j = 0" by simp
    from l [unfolded so, rule_format, of "Suc 0"] r1
    have "timestamp (buf booted ! Suc 0) < timestamp (buf booted ! 0)"
      by (simp add: j0)
    then show False by (simp add: booted_Suc(4,5))
  qed
  with sel [unfolded so] have "select_lru booted = Inr (s1, k, q, Some 1)" by simp
  then have e: "\<exists>s1 k q. select_lru booted = Inr (s1, k, q, Some 1)" by blast
  have t: "timestamp (buf booted ! 0) = timestamp (buf booted ! 1)"
    by (simp add: booted_Suc(4,5))
  from m booted_chains(6) u booted_chains(9) obtain s' where
    "bget booted 1 1 1 = Inr (s', scan_order ?cs ! j)" "ident s' (scan_order ?cs ! j) = (1, 1)"
    "refcnt (buf s' ! (scan_order ?cs ! j)) = 1"
    by blast
  then have g: "\<exists>s'. bget booted 1 1 1 = Inr (s', 1) \<and> ident s' 1 = (1, 1) \<and> refcnt (buf s' ! 1) = 1"
    unfolding so j1 by auto
  from booted_chains(1) h so t e booted_chains(6,7,8,9) g show ?thesis by blast
qed

text \<open>
  C10. A Buf whose \<open>refcnt\<close> is not 0 (so at least 1) when an operation starts has
  the same \<open>dev\<close> and \<open>blockno\<close> when the operation returns, for \<open>bget\<close>,
  \<open>bread\<close>, \<open>bwrite\<close>, \<open>brelse\<close>, \<open>bpin\<close> and \<open>bunpin\<close>; \<open>binit\<close> writes no
  identity at all. The candidate the eviction scan selects is a Buf with
  \<open>refcnt == 0\<close>, so another Buf.
\<close>

theorem held_buf_identity_stable:
  assumes "n < length (buf s)" and "refcnt (buf s ! n) \<noteq> 0"
  shows "(\<forall>s' r. bget s p dv bn = Inr (s', r) \<longrightarrow> ident s' n = ident s n) \<and>
         (\<forall>s' r. bread s p dv bn = Inr (s', r) \<longrightarrow> ident s' n = ident s n) \<and>
         (\<forall>s'. bwrite s p b = Inr s' \<longrightarrow> ident s' n = ident s n) \<and>
         (\<forall>s'. brelse s p b = Inr s' \<longrightarrow> ident s' n = ident s n) \<and>
         (\<forall>s'. bpin s b = Inr s' \<longrightarrow> ident s' n = ident s n) \<and>
         (\<forall>s'. bunpin s b = Inr s' \<longrightarrow> ident s' n = ident s n) \<and>
         ident (binit s) n = ident s n \<and>
         (\<forall>s1 k q lb. select_lru s = Inr (s1, k, q, lb) \<longrightarrow>
            (\<exists>e. lb = Some e \<and> refcnt (buf s ! e) = 0 \<and> e \<noteq> n))"
proof -
  have a: "ident (binit s) n = ident s n"
    by (simp add: binit_def binit_buckets_ident)
  have g: "\<forall>s' r. bget s p dv bn = Inr (s', r) \<longrightarrow> ident s' n = ident s n"
  proof (intro allI impI)
    fix s' r
    assume "bget s p dv bn = Inr (s', r)"
    from bget_Inr [OF this] obtain e where
      "refcnt (buf s ! e) = 0 \<and> (\<forall>j. j \<noteq> e \<longrightarrow> ident s' j = ident s j) \<or>
       (\<forall>j. ident s' j = ident s j)"
      by blast
    with assms(2) show "ident s' n = ident s n" by auto
  qed
  have r: "\<forall>s' r. bread s p dv bn = Inr (s', r) \<longrightarrow> ident s' n = ident s n"
  proof (intro allI impI)
    fix s' r
    assume "bread s p dv bn = Inr (s', r)"
    from bread_Inr [OF this] obtain e where
      "refcnt (buf s ! e) = 0 \<and> (\<forall>j. j \<noteq> e \<longrightarrow> ident s' j = ident s j) \<or>
       (\<forall>j. ident s' j = ident s j)"
      by blast
    with assms(2) show "ident s' n = ident s n" by auto
  qed
  have w: "\<forall>s'. bwrite s p b = Inr s' \<longrightarrow> ident s' n = ident s n"
    by (auto simp: bwrite_def virtio_disk_rw_def split: if_splits)
  have e: "\<forall>s'. brelse s p b = Inr s' \<longrightarrow> ident s' n = ident s n"
    using assms(1)
    by (auto simp: brelse_def releasesleep_def Let_def ident_def nth_list_update split: if_splits)
  have i: "\<forall>s'. bpin s b = Inr s' \<longrightarrow> ident s' n = ident s n"
    by (auto simp: bpin_def Let_def ident_def nth_upd_field split: if_splits)
  have u: "\<forall>s'. bunpin s b = Inr s' \<longrightarrow> ident s' n = ident s n"
    by (auto simp: bunpin_def Let_def ident_def nth_upd_field split: if_splits)
  have c: "\<forall>s1 k q lb. select_lru s = Inr (s1, k, q, lb) \<longrightarrow>
            (\<exists>e. lb = Some e \<and> refcnt (buf s ! e) = 0 \<and> e \<noteq> n)"
    using assms(2) select_lru_Inr by blast
  from g r w e i u a c show ?thesis by blast
qed

lemma one_held_bget_returns: "\<not> isl (bget one_held 1 1 2)"
  by code_simp

theorem held_buf_identity_stable_witness:
  "1 < length (buf one_held) \<and> refcnt (buf one_held ! 1) \<noteq> 0 \<and>
   \<not> isl (bget one_held 1 1 2) \<and> ident one_held 1 = (1, 1) \<and>
   ident (fst (projr (bget one_held 1 1 2))) 1 = (1, 1) \<and>
   ident one_held 0 = (0, 0) \<and>
   ident (fst (projr (bget one_held 1 1 2))) 0 = (1, 2)"
proof -
  have h: "1 < length (buf one_held)" "refcnt (buf one_held ! 1) \<noteq> 0"
    by (simp_all add: one_held_Suc)
  have e: "bget one_held 1 1 2
             = Inr (fst (projr (bget one_held 1 1 2)), snd (projr (bget one_held 1 1 2)))"
    using one_held_bget_returns by simp
  from held_buf_identity_stable [OF h, of 1 1 2] e
  have s: "ident (fst (projr (bget one_held 1 1 2))) 1 = ident one_held 1" by blast
  have i: "ident one_held 1 = (1, 1)" "ident one_held 0 = (0, 0)"
    "ident (fst (projr (bget one_held 1 1 2))) 0 = (1, 2)"
    by code_simp+
  from h one_held_bget_returns s i show ?thesis by simp
qed

section \<open>Properties of the buffer cache: release, pin, unpin, write\<close>

text \<open>
  C7. Called on a Buf whose SleepLock the calling process does not hold, \<open>bwrite\<close>
  stops with \<open>panic("bwrite")\<close> and \<open>brelse\<close> with \<open>panic("brelse")\<close>; called
  on a Buf whose SleepLock the caller holds, both return.
\<close>

theorem bwrite_brelse_panic_iff_not_holding:
  assumes "b < length (buf s)"
  shows "(isl (bwrite s p b) \<longleftrightarrow> \<not> holdingsleep (lock (buf s ! b)) p) \<and>
         (isl (bwrite s p b) \<longrightarrow> bwrite s p b = Inl (Panic ''bwrite'')) \<and>
         (isl (brelse s p b) \<longleftrightarrow> \<not> holdingsleep (lock (buf s ! b)) p) \<and>
         (isl (brelse s p b) \<longrightarrow> brelse s p b = Inl (Panic ''brelse''))"
  using assms by (simp add: bwrite_def brelse_def Let_def)

theorem bwrite_brelse_panic_iff_not_holding_witness:
  "1 < length (buf one_held) \<and>
   holdingsleep (lock (buf one_held ! 1)) 1 \<and>
   \<not> isl (bwrite one_held 1 1) \<and> \<not> isl (brelse one_held 1 1) \<and>
   \<not> holdingsleep (lock (buf one_held ! 1)) 2 \<and>
   bwrite one_held 2 1 = Inl (Panic ''bwrite'') \<and> brelse one_held 2 1 = Inl (Panic ''brelse'')"
proof -
  have h: "1 < length (buf one_held)" by (simp add: one_held_facts)
  from bwrite_brelse_panic_iff_not_holding [OF h, of 1]
       bwrite_brelse_panic_iff_not_holding [OF h, of 2] h
  show ?thesis by (simp add: one_held_Suc)
qed

text \<open>
  C8. For a Buf \<open>b\<close> whose SleepLock the caller holds, \<open>brelse(b)\<close> returns. It
  releases the SleepLock, then takes the lock of the bucket \<open>b\<close>'s identity hashes to,
  lowers \<open>refcnt\<close> by one, sets \<open>timestamp\<close> to the current tick if the new count
  is 0, and releases the bucket lock, in this order. The other fields of \<open>b\<close>, the
  other Bufs, the chains and the tick counter are unchanged.
\<close>

theorem brelse_effect:
  assumes "b < length (buf s)" and "holdingsleep (lock (buf s ! b)) p"
  shows "\<exists>s'. brelse s p b = Inr s' \<and>
           buf s' = (buf s)[b := (buf s ! b)
              \<lparr>lock := \<lparr>locked = False, pid = 0\<rparr>,
               refcnt := refcnt (buf s ! b) - 1,
               timestamp := (if refcnt (buf s ! b) - 1 = 0 then ticks s
                             else timestamp (buf s ! b))\<rparr>] \<and>
           buckets s' = buckets s \<and> ticks s' = ticks s \<and>
           trace s' =
             Release (Bucket_lock (hash (dev (buf s ! b)) (blockno (buf s ! b))))
             # (if refcnt (buf s ! b) - 1 = 0 then [SetTimestamp b (ticks s)] else [])
             @ [SetRefcnt b (refcnt (buf s ! b) - 1),
                Acquire (Bucket_lock (hash (dev (buf s ! b)) (blockno (buf s ! b)))),
                ReleaseSleep b]
             @ trace s"
  using assms
  by (simp add: brelse_def releasesleep_def acquire_def release_def log_def upd_buf_def Let_def)

theorem brelse_effect_witness:
  "1 < length (buf one_held) \<and> holdingsleep (lock (buf one_held ! 1)) 1 \<and>
   \<not> isl (brelse one_held 1 1) \<and>
   refcnt (buf (projr (brelse one_held 1 1)) ! 1) = 0 \<and>
   timestamp (buf (projr (brelse one_held 1 1)) ! 1) = 7 \<and>
   \<not> locked (lock (buf (projr (brelse one_held 1 1)) ! 1)) \<and>
   take 5 (trace (projr (brelse one_held 1 1))) =
     [Release (Bucket_lock 1), SetTimestamp 1 7, SetRefcnt 1 0, Acquire (Bucket_lock 1),
      ReleaseSleep 1]"
proof -
  have h: "1 < length (buf one_held)" by (simp add: one_held_facts)
  have k: "hash 1 1 = 1" by (simp add: hash_def)
  from brelse_effect [OF h one_held_facts(2)] obtain s' where
    "brelse one_held 1 1 = Inr s'" and
    "buf s' = (buf one_held)[1 := (buf one_held ! 1)
              \<lparr>lock := \<lparr>locked = False, pid = 0\<rparr>,
               refcnt := refcnt (buf one_held ! 1) - 1,
               timestamp := (if refcnt (buf one_held ! 1) - 1 = 0 then ticks one_held
                             else timestamp (buf one_held ! 1))\<rparr>]" and
    "trace s' =
             Release (Bucket_lock (hash (dev (buf one_held ! 1)) (blockno (buf one_held ! 1))))
             # (if refcnt (buf one_held ! 1) - 1 = 0 then [SetTimestamp 1 (ticks one_held)] else [])
             @ [SetRefcnt 1 (refcnt (buf one_held ! 1) - 1),
                Acquire (Bucket_lock (hash (dev (buf one_held ! 1)) (blockno (buf one_held ! 1)))),
                ReleaseSleep 1]
             @ trace one_held"
    by blast
  with h k show ?thesis by (simp add: one_held_Suc)
qed

text \<open>
  C9. \<open>bunpin(b)\<close> always returns and lowers \<open>refcnt\<close> by one, whatever the count
  is: from 0 the count becomes -1 (all bits set). It leaves \<open>timestamp\<close> and every
  other field, every other Buf, the chains and the tick counter as they are, and
  no timestamp is written.
\<close>

theorem bunpin_effect:
  assumes "b < length (buf s)"
  shows "\<exists>s'. bunpin s b = Inr s' \<and>
           buf s' = (buf s)[b := (buf s ! b)\<lparr>refcnt := refcnt (buf s ! b) - 1\<rparr>] \<and>
           (refcnt (buf s ! b) = 0 \<longrightarrow> refcnt (buf s' ! b) = - 1) \<and>
           timestamp (buf s' ! b) = timestamp (buf s ! b) \<and>
           buckets s' = buckets s \<and> ticks s' = ticks s \<and>
           trace s' =
             [Release (Bucket_lock (hash (dev (buf s ! b)) (blockno (buf s ! b)))),
              SetRefcnt b (refcnt (buf s ! b) - 1),
              Acquire (Bucket_lock (hash (dev (buf s ! b)) (blockno (buf s ! b))))]
             @ trace s"
  using assms
  by (simp add: bunpin_def acquire_def release_def log_def upd_buf_def Let_def)

theorem bunpin_effect_witness:
  "0 < length (buf one_held) \<and> refcnt (buf one_held ! 0) = 0 \<and>
   \<not> isl (bunpin one_held 0) \<and>
   refcnt (buf (projr (bunpin one_held 0)) ! 0) = - 1 \<and>
   sint (refcnt (buf (projr (bunpin one_held 0)) ! 0)) = - 1 \<and>
   timestamp (buf (projr (bunpin one_held 0)) ! 0) = timestamp (buf one_held ! 0)"
proof -
  have h: "0 < length (buf one_held)" by (simp add: one_held_facts)
  have z: "refcnt (buf one_held ! 0) = 0" by code_simp
  from bunpin_effect [OF h] obtain s' where
    "bunpin one_held 0 = Inr s'" and
    "refcnt (buf one_held ! 0) = 0 \<longrightarrow> refcnt (buf s' ! 0) = - 1" and
    "timestamp (buf s' ! 0) = timestamp (buf one_held ! 0)"
    by blast
  with h z show ?thesis by simp
qed

text \<open>
  C4, as the code has it. Of the operations, only \<open>brelse\<close> and \<open>bunpin\<close> can take a
  \<open>refcnt\<close> from 1 to 0; \<open>bget\<close>, \<open>bread\<close>, \<open>bwrite\<close> and \<open>bpin\<close> never do.
  \<open>brelse\<close> sets the \<open>timestamp\<close> of the Buf it releases to the current tick when it
  leaves \<open>refcnt\<close> at 0, in particular when it takes the count from 1 to 0, and
  writes no other \<open>timestamp\<close>. \<open>bunpin\<close> writes no \<open>timestamp\<close>, whatever the
  count becomes, and neither do \<open>bget\<close>, \<open>bread\<close>, \<open>bwrite\<close> and \<open>bpin\<close>. The one
  other writer is \<open>binit\<close>, which sets the \<open>timestamp\<close> of every Buf to the tick at
  initialisation.
\<close>

theorem timestamp_written_by_brelse_only:
  "(\<forall>s'. brelse s p b = Inr s' \<longrightarrow>
      refcnt (buf s' ! b) = refcnt (buf s ! b) - 1 \<and>
      (refcnt (buf s' ! b) = 0 \<longrightarrow> timestamp (buf s' ! b) = ticks s) \<and>
      (refcnt (buf s' ! b) \<noteq> 0 \<longrightarrow> timestamp (buf s' ! b) = timestamp (buf s ! b)) \<and>
      (\<forall>n. n \<noteq> b \<longrightarrow> timestamp (buf s' ! n) = timestamp (buf s ! n) \<and>
                       refcnt (buf s' ! n) = refcnt (buf s ! n))) \<and>
   (\<forall>s'. bunpin s b = Inr s' \<longrightarrow>
      refcnt (buf s' ! b) = refcnt (buf s ! b) - 1 \<and>
      (\<forall>n. timestamp (buf s' ! n) = timestamp (buf s ! n)) \<and>
      (\<forall>n. n \<noteq> b \<longrightarrow> refcnt (buf s' ! n) = refcnt (buf s ! n))) \<and>
   (\<forall>s'. bpin s b = Inr s' \<longrightarrow>
      (\<forall>n. timestamp (buf s' ! n) = timestamp (buf s ! n) \<and>
           (refcnt (buf s ! n) = 1 \<longrightarrow> refcnt (buf s' ! n) \<noteq> 0))) \<and>
   (\<forall>s'. bwrite s p b = Inr s' \<longrightarrow>
      (\<forall>n. timestamp (buf s' ! n) = timestamp (buf s ! n) \<and>
           refcnt (buf s' ! n) = refcnt (buf s ! n))) \<and>
   (\<forall>s' r. bget s p dv bn = Inr (s', r) \<longrightarrow>
      (\<forall>n. timestamp (buf s' ! n) = timestamp (buf s ! n) \<and>
           (refcnt (buf s ! n) = 1 \<longrightarrow> refcnt (buf s' ! n) \<noteq> 0))) \<and>
   (\<forall>s' r. bread s p dv bn = Inr (s', r) \<longrightarrow>
      (\<forall>n. timestamp (buf s' ! n) = timestamp (buf s ! n) \<and>
           (refcnt (buf s ! n) = 1 \<longrightarrow> refcnt (buf s' ! n) \<noteq> 0))) \<and>
   (\<forall>n<length (buf s). timestamp (buf (binit s) ! n) = ticks s)"
proof -
  have e: "\<forall>s'. brelse s p b = Inr s' \<longrightarrow>
      refcnt (buf s' ! b) = refcnt (buf s ! b) - 1 \<and>
      (refcnt (buf s' ! b) = 0 \<longrightarrow> timestamp (buf s' ! b) = ticks s) \<and>
      (refcnt (buf s' ! b) \<noteq> 0 \<longrightarrow> timestamp (buf s' ! b) = timestamp (buf s ! b)) \<and>
      (\<forall>n. n \<noteq> b \<longrightarrow> timestamp (buf s' ! n) = timestamp (buf s ! n) \<and>
                       refcnt (buf s' ! n) = refcnt (buf s ! n))"
    by (auto simp: brelse_def releasesleep_def Let_def split: if_splits)
  have u: "\<forall>s'. bunpin s b = Inr s' \<longrightarrow>
      refcnt (buf s' ! b) = refcnt (buf s ! b) - 1 \<and>
      (\<forall>n. timestamp (buf s' ! n) = timestamp (buf s ! n)) \<and>
      (\<forall>n. n \<noteq> b \<longrightarrow> refcnt (buf s' ! n) = refcnt (buf s ! n))"
    by (auto simp: bunpin_def Let_def nth_upd_field split: if_splits)
  have i: "\<forall>s'. bpin s b = Inr s' \<longrightarrow>
      (\<forall>n. timestamp (buf s' ! n) = timestamp (buf s ! n) \<and>
           (refcnt (buf s ! n) = 1 \<longrightarrow> refcnt (buf s' ! n) \<noteq> 0))"
    by (auto simp: bpin_def Let_def nth_upd_field nth_list_update split: if_splits)
  have w: "\<forall>s'. bwrite s p b = Inr s' \<longrightarrow>
      (\<forall>n. timestamp (buf s' ! n) = timestamp (buf s ! n) \<and>
           refcnt (buf s' ! n) = refcnt (buf s ! n))"
    by (auto simp: bwrite_def virtio_disk_rw_def split: if_splits)
  have g: "\<forall>s' r. bget s p dv bn = Inr (s', r) \<longrightarrow>
      (\<forall>n. timestamp (buf s' ! n) = timestamp (buf s ! n) \<and>
           (refcnt (buf s ! n) = 1 \<longrightarrow> refcnt (buf s' ! n) \<noteq> 0))"
  proof (intro allI impI conjI)
    fix s' r n assume a: "bget s p dv bn = Inr (s', r)"
    from bget_counters [OF a, of n] show "timestamp (buf s' ! n) = timestamp (buf s ! n)" by simp
    assume "refcnt (buf s ! n) = 1"
    with bget_counters [OF a, of n] show "refcnt (buf s' ! n) \<noteq> 0" by auto
  qed
  have r: "\<forall>s' r. bread s p dv bn = Inr (s', r) \<longrightarrow>
      (\<forall>n. timestamp (buf s' ! n) = timestamp (buf s ! n) \<and>
           (refcnt (buf s ! n) = 1 \<longrightarrow> refcnt (buf s' ! n) \<noteq> 0))"
  proof (intro allI impI conjI)
    fix s' r n assume a: "bread s p dv bn = Inr (s', r)"
    from bread_counters [OF a, of n] show "timestamp (buf s' ! n) = timestamp (buf s ! n)" by simp
    assume "refcnt (buf s ! n) = 1"
    with bread_counters [OF a, of n] show "refcnt (buf s' ! n) \<noteq> 0" by auto
  qed
  have n: "\<forall>n<length (buf s). timestamp (buf (binit s) ! n) = ticks s"
    by (simp add: binit_timestamp)
  from e u i w g r n show ?thesis by blast
qed

theorem timestamp_written_by_brelse_only_witness:
  "\<not> isl (brelse one_held_later 1 1) \<and> \<not> isl (bunpin one_held_later 1) \<and>
   \<not> isl (bpin one_held_later 1) \<and> \<not> isl (bwrite one_held_later 1 1) \<and>
   \<not> isl (bget one_held_later 1 1 2) \<and> \<not> isl (bread one_held_later 1 1 2) \<and>
   refcnt (buf one_held_later ! 1) = 1 \<and> timestamp (buf one_held_later ! 1) = 7 \<and>
   ticks one_held_later = 9 \<and>
   refcnt (buf (projr (brelse one_held_later 1 1)) ! 1) = 0 \<and>
   timestamp (buf (projr (brelse one_held_later 1 1)) ! 1) = 9 \<and>
   timestamp (buf (projr (brelse one_held_later 1 1)) ! 0) = 7 \<and>
   refcnt (buf (projr (bunpin one_held_later 1)) ! 1) = 0 \<and>
   timestamp (buf (projr (bunpin one_held_later 1)) ! 1) = 7 \<and>
   timestamp (buf (projr (bpin one_held_later 1)) ! 1) = 7 \<and>
   refcnt (buf (projr (bpin one_held_later 1)) ! 1) \<noteq> 0 \<and>
   timestamp (buf (projr (bwrite one_held_later 1 1)) ! 1) = 7 \<and>
   refcnt (buf (projr (bwrite one_held_later 1 1)) ! 1) = 1 \<and>
   timestamp (buf (fst (projr (bget one_held_later 1 1 2))) ! 1) = 7 \<and>
   refcnt (buf (fst (projr (bget one_held_later 1 1 2))) ! 1) \<noteq> 0 \<and>
   timestamp (buf (fst (projr (bread one_held_later 1 1 2))) ! 1) = 7 \<and>
   refcnt (buf (fst (projr (bread one_held_later 1 1 2))) ! 1) \<noteq> 0 \<and>
   0 < length (buf (zeroed 2 7)) \<and> timestamp (buf (binit (zeroed 2 7)) ! 0) = 7"
proof -
  note f = one_held_later_Suc
  have e: "brelse one_held_later 1 1 = Inr (projr (brelse one_held_later 1 1))"
    "bunpin one_held_later 1 = Inr (projr (bunpin one_held_later 1))"
    "bget one_held_later 1 1 2
       = Inr (fst (projr (bget one_held_later 1 1 2)), snd (projr (bget one_held_later 1 1 2)))"
    "bpin one_held_later 1 = Inr (projr (bpin one_held_later 1))"
    "bwrite one_held_later 1 1 = Inr (projr (bwrite one_held_later 1 1))"
    "bread one_held_later 1 1 2
       = Inr (fst (projr (bread one_held_later 1 1 2)), snd (projr (bread one_held_later 1 1 2)))"
    using one_held_later_facts(4,5,6,10,11,12) by simp_all
  note t = timestamp_written_by_brelse_only [of one_held_later 1 1 1 2]
  from t e(1) have r1: "refcnt (buf (projr (brelse one_held_later 1 1)) ! 1)
       = refcnt (buf one_held_later ! 1) - 1"
    and r2: "refcnt (buf (projr (brelse one_held_later 1 1)) ! 1) = 0 \<longrightarrow>
       timestamp (buf (projr (brelse one_held_later 1 1)) ! 1) = ticks one_held_later"
    and r3: "timestamp (buf (projr (brelse one_held_later 1 1)) ! 0)
       = timestamp (buf one_held_later ! 0)"
    by (blast, blast, simp)
  from t e(2) have u1: "refcnt (buf (projr (bunpin one_held_later 1)) ! 1)
       = refcnt (buf one_held_later ! 1) - 1"
    and u2: "timestamp (buf (projr (bunpin one_held_later 1)) ! 1)
       = timestamp (buf one_held_later ! 1)"
    by (blast, blast)
  from t e(3) have g1: "timestamp (buf (fst (projr (bget one_held_later 1 1 2))) ! 1)
       = timestamp (buf one_held_later ! 1)"
    and g2: "refcnt (buf one_held_later ! 1) = 1 \<longrightarrow>
       refcnt (buf (fst (projr (bget one_held_later 1 1 2))) ! 1) \<noteq> 0"
    by (blast, blast)
  from t e(4) have i1: "timestamp (buf (projr (bpin one_held_later 1)) ! 1)
       = timestamp (buf one_held_later ! 1)"
    and i2: "refcnt (buf one_held_later ! 1) = 1 \<longrightarrow>
       refcnt (buf (projr (bpin one_held_later 1)) ! 1) \<noteq> 0"
    by (blast, blast)
  from t e(5) have w1: "timestamp (buf (projr (bwrite one_held_later 1 1)) ! 1)
       = timestamp (buf one_held_later ! 1)"
    and w2: "refcnt (buf (projr (bwrite one_held_later 1 1)) ! 1)
       = refcnt (buf one_held_later ! 1)"
    by (blast, blast)
  from t e(6) have d1: "timestamp (buf (fst (projr (bread one_held_later 1 1 2))) ! 1)
       = timestamp (buf one_held_later ! 1)"
    and d2: "refcnt (buf one_held_later ! 1) = 1 \<longrightarrow>
       refcnt (buf (fst (projr (bread one_held_later 1 1 2))) ! 1) \<noteq> 0"
    by (blast, blast)
  from timestamp_written_by_brelse_only [of "zeroed 2 7"] f(8)
  have b: "timestamp (buf (binit (zeroed 2 7)) ! 0) = ticks (zeroed 2 7)" by simp
  from r1 r2 r3 u1 u2 g1 g2 i1 i2 w1 w2 d1 d2 b one_held_later_facts(4,5,6,10,11,12)
  show ?thesis by (simp add: f)
qed

text \<open>
  C4, as the claim states it, fails for \<open>bunpin\<close>: Buf 1 has \<open>refcnt = 1\<close> and a
  timestamp of 7 while the tick counter is at 9; \<open>bunpin\<close> takes the count to 0 and
  the timestamp is still 7.
\<close>

theorem bunpin_to_zero_keeps_old_timestamp:
  "refcnt (buf pinned_released ! 1) = 1 \<and> ticks pinned_released = 9 \<and>
   \<not> isl (bunpin pinned_released 1) \<and>
   refcnt (buf (projr (bunpin pinned_released 1)) ! 1) = 0 \<and>
   timestamp (buf (projr (bunpin pinned_released 1)) ! 1) = 7 \<and>
   ticks (projr (bunpin pinned_released 1)) = 9"
  by code_simp

section \<open>Properties of the page allocator\<close>

lemma steal_find:
  "steal s cpu_id i =
     (case List.find (nonempty s) (filter (\<lambda>j. j \<noteq> cpu_id) [i..<NCPU s]) of
        None \<Rightarrow> (s, 0) | Some j \<Rightarrow> take_head s j)"
proof (induction s cpu_id i rule: steal.induct)
  case (1 s cpu_id i)
  note unfold = steal.simps [of s cpu_id i]
  show ?case
  proof (cases "i < NCPU s")
    case False
    then show ?thesis by (subst unfold) simp
  next
    case inside: True
    then have up: "[i..<NCPU s] = i # [i + 1..<NCPU s]"
      by (simp add: upt_conv_Cons)
    show ?thesis
    proof (cases "i = cpu_id")
      case True
      with inside 1 up show ?thesis
        by (subst unfold) simp
    next
      case ne: False
      show ?thesis
      proof (cases "nonempty s i")
        case True
        then have "freelist (kmems s ! i) \<noteq> 0" by (simp add: nonempty_def)
        with True inside ne up show ?thesis
          by (subst unfold) simp
      next
        case empty: False
        then have fl: "freelist (kmems s ! i) = 0" by (simp add: nonempty_def)
        show ?thesis
        proof (cases "i = NCPU s - 1")
          case True
          with inside have "[i + 1..<NCPU s] = []" by simp
          with inside ne empty fl up True show ?thesis
            by (subst unfold) simp
        next
          case False
          with inside ne empty fl up 1 show ?thesis
            by (subst unfold) simp
        qed
      qed
    qed
  qed
qed

lemma kalloc_find:
  "kalloc s cpu_id =
     (case List.find (nonempty s) (visit_order s cpu_id) of
        None \<Rightarrow> (s, 0) | Some j \<Rightarrow> take_head s j)"
proof (cases "nonempty s cpu_id")
  case True
  then have "freelist (kmems s ! cpu_id) \<noteq> 0" by (simp add: nonempty_def)
  with True show ?thesis by (simp add: kalloc_def visit_order_def)
next
  case False
  then have "freelist (kmems s ! cpu_id) = 0" by (simp add: nonempty_def)
  with False show ?thesis by (simp add: kalloc_def visit_order_def steal_find)
qed

lemma take_head_result: "snd (take_head s i) = freelist (kmems s ! i)"
  by (simp add: take_head_def Let_def)

lemma take_head_kmems:
  "kmems (fst (take_head s i)) =
     (kmems s)[i := (kmems s ! i)\<lparr>freelist := run_next s (freelist (kmems s ! i))\<rparr>]"
  by (simp add: take_head_def memset_page_def Let_def)

lemma set_visit_order: "cpu_id < NCPU s \<Longrightarrow> set (visit_order s cpu_id) = {0..<NCPU s}"
  by (auto simp: visit_order_def)

text \<open>
  C5. \<open>kalloc\<close> returns the null pointer exactly when the free list of every CPU is
  empty. Otherwise it takes the first non-empty list in its visiting order (the
  caller's own list, then the other CPUs in ascending order), returns the head frame
  of that list and makes the frame's successor the new head.
\<close>

theorem kalloc_null_iff_all_empty:
  assumes "cpu_id < NCPU s"
  shows "(snd (kalloc s cpu_id) = 0 \<longleftrightarrow> (\<forall>i<NCPU s. freelist (kmems s ! i) = 0)) \<and>
         (\<forall>j. List.find (nonempty s) (visit_order s cpu_id) = Some j \<longrightarrow>
              snd (kalloc s cpu_id) = freelist (kmems s ! j) \<and>
              kmems (fst (kalloc s cpu_id)) =
                (kmems s)[j := (kmems s ! j)\<lparr>freelist := run_next s (freelist (kmems s ! j))\<rparr>])"
proof (cases "List.find (nonempty s) (visit_order s cpu_id)")
  case None
  then have "\<forall>i\<in>set (visit_order s cpu_id). \<not> nonempty s i"
    by (simp add: find_None_iff)
  with assms have "\<forall>i<NCPU s. freelist (kmems s ! i) = 0"
    by (simp add: set_visit_order nonempty_def)
  with None show ?thesis by (simp add: kalloc_find)
next
  case (Some j)
  then have j: "nonempty s j" "j \<in> set (visit_order s cpu_id)"
    by (auto simp: find_Some_iff in_set_conv_nth)
  with assms have "j < NCPU s" "freelist (kmems s ! j) \<noteq> 0"
    by (simp_all add: set_visit_order nonempty_def)
  with Some show ?thesis
    by (auto simp: kalloc_find take_head_result take_head_kmems)
qed

theorem kalloc_null_iff_all_empty_witness:
  "0 < NCPU two_cpus \<and> List.find (nonempty two_cpus) (visit_order two_cpus 0) = Some 1 \<and>
   snd (kalloc two_cpus 0) = 0x87FFF000 \<and>
   kmems (fst (kalloc two_cpus 0)) = [\<lparr>freelist = 0\<rparr>, \<lparr>freelist = 0\<rparr>]"
proof -
  have h: "0 < NCPU two_cpus" by (simp add: NCPU_def two_cpus_def)
  have f: "List.find (nonempty two_cpus) (visit_order two_cpus 0) = Some 1"
    by (simp add: visit_order_def nonempty_def NCPU_def two_cpus_def upt_rec)
  from kalloc_null_iff_all_empty [OF h] f
  have "snd (kalloc two_cpus 0) = freelist (kmems two_cpus ! 1) \<and>
        kmems (fst (kalloc two_cpus 0)) =
          (kmems two_cpus)[1 := (kmems two_cpus ! 1)
             \<lparr>freelist := run_next two_cpus (freelist (kmems two_cpus ! 1))\<rparr>]"
    by blast
  with h f show ?thesis by (simp add: two_cpus_def)
qed

text \<open>
  C6. \<open>kfree(pa)\<close> stops the kernel exactly when \<open>pa\<close> is not a multiple of 4096, or
  lies below \<open>end\<close>, or at or above \<open>PHYSTOP\<close>, and then with \<open>panic("kfree")\<close>. For
  every other pointer it returns, the frame is the new head of the calling CPU's free
  list, its first word holds the old head, and the other free lists are as before.
\<close>

theorem kfree_panics_iff:
  "(isl (kfree kernel_end PHYSTOP s cpu_id pa) \<longleftrightarrow>
      (pa mod 4096 \<noteq> 0 \<or> pa < kernel_end \<or> PHYSTOP \<le> pa)) \<and>
   (isl (kfree kernel_end PHYSTOP s cpu_id pa) \<longrightarrow>
      kfree kernel_end PHYSTOP s cpu_id pa = Inl (Panic ''kfree'')) \<and>
   (\<not> (pa mod 4096 \<noteq> 0 \<or> pa < kernel_end \<or> PHYSTOP \<le> pa) \<longrightarrow> cpu_id < NCPU s \<longrightarrow>
      (\<exists>s'. kfree kernel_end PHYSTOP s cpu_id pa = Inr s' \<and>
            freelist (kmems s' ! cpu_id) = pa \<and>
            run_next s' pa = freelist (kmems s ! cpu_id) \<and>
            NCPU s' = NCPU s \<and>
            (\<forall>i<NCPU s. i \<noteq> cpu_id \<longrightarrow> kmems s' ! i = kmems s ! i)))"
  by (simp add: kfree_def PGSIZE_def memset_page_def NCPU_def Let_def)

theorem kfree_panics_iff_witness:
  "\<not> isl (kfree 0x80021000 0x88000000 two_cpus 0 0x80022000) \<and>
   isl (kfree 0x80021000 0x88000000 two_cpus 0 0x80022008) \<and>
   \<not> ((0x80022000 :: uint64) mod 4096 \<noteq> 0 \<or> (0x80022000 :: uint64) < 0x80021000
        \<or> (0x88000000 :: uint64) \<le> 0x80022000) \<and>
   0 < NCPU two_cpus \<and>
   (\<exists>s'. kfree 0x80021000 0x88000000 two_cpus 0 0x80022000 = Inr s' \<and>
         freelist (kmems s' ! 0) = 0x80022000 \<and> kmems s' ! 1 = kmems two_cpus ! 1)"
proof -
  have c: "\<not> ((0x80022000 :: uint64) mod 4096 \<noteq> 0 \<or> (0x80022000 :: uint64) < 0x80021000
        \<or> (0x88000000 :: uint64) \<le> 0x80022000)" by simp
  have n: "0 < NCPU two_cpus" "(1::nat) < NCPU two_cpus" by (simp_all add: NCPU_def two_cpus_def)
  have b: "isl (kfree 0x80021000 0x88000000 two_cpus 0 0x80022008)"
    using kfree_panics_iff [of "0x80021000" "0x88000000" two_cpus 0 "0x80022008"] by simp
  from kfree_panics_iff [of "0x80021000" "0x88000000" two_cpus 0 "0x80022000"] c n b
  show ?thesis by auto
qed

end
